theory Spec2Isabelle
  imports Complex_Main "HOL-Library.AList" "HOL-Library.Multiset"
begin

section \<open>Errors raised by the Python code\<close>

datatype error = IndexError | KeyError | NetworkXError | TypeError

section \<open>The graph model: the part of \<open>networkx.DiGraph\<close> the repository uses\<close>

text \<open>
  A \<open>DiGraph\<close> keeps its nodes and, per node, its successors in insertion-ordered
  dictionaries. The model keeps the node list and one association list of edges,
  keyed by the ordered pair, with the \<open>duration\<close> attribute as the value, both in
  insertion order. Assigning to an existing key keeps its position and a new key goes
  last (\<open>AList.update\<close>), as in a Python dict.
\<close>

record 'a digraph =
  nodes :: "'a list"
  edges :: "(('a \<times> 'a) \<times> int) list"

definition empty_graph :: "'a digraph" where
  "empty_graph = \<lparr>nodes = [], edges = []\<rparr>"

definition add_node :: "'a \<Rightarrow> 'a digraph \<Rightarrow> 'a digraph" where
  "add_node n G = (if n \<in> set (nodes G) then G else G\<lparr>nodes := nodes G @ [n]\<rparr>)"

definition add_nodes_from :: "'a list \<Rightarrow> 'a digraph \<Rightarrow> 'a digraph" where
  "add_nodes_from ns G = fold add_node ns G"

text \<open>\<open>G.add_edge(u, v, duration=d)\<close>: both end points become nodes when they are not
  yet, and the attribute of an edge that is already there is overwritten.\<close>

definition add_edge :: "'a \<Rightarrow> 'a \<Rightarrow> int \<Rightarrow> 'a digraph \<Rightarrow> 'a digraph" where
  "add_edge u v d G =
     (let G' = add_node v (add_node u G)
      in G'\<lparr>edges := AList.update (u, v) d (edges G')\<rparr>)"

text \<open>\<open>G.remove_edge(u, v)\<close>. The library raises when the edge is absent; the repository
  calls it only on the edge it added on the line before.\<close>

definition remove_edge :: "'a \<Rightarrow> 'a \<Rightarrow> 'a digraph \<Rightarrow> 'a digraph" where
  "remove_edge u v G = G\<lparr>edges := AList.delete (u, v) (edges G)\<rparr>"

definition out_edges :: "'a digraph \<Rightarrow> 'a \<Rightarrow> ('a \<times> int) list" where
  "out_edges G u = map (\<lambda>e. (snd (fst e), snd e)) (filter (\<lambda>e. fst (fst e) = u) (edges G))"

definition successors :: "'a digraph \<Rightarrow> 'a \<Rightarrow> 'a list" where
  "successors G u = map fst (out_edges G u)"

definition in_edges :: "'a digraph \<Rightarrow> 'a \<Rightarrow> ('a \<times> int) list" where
  "in_edges G v = map (\<lambda>e. (fst (fst e), snd e)) (filter (\<lambda>e. snd (fst e) = v) (edges G))"

definition predecessors :: "'a digraph \<Rightarrow> 'a \<Rightarrow> 'a list" where
  "predecessors G v = map fst (in_edges G v)"

definition in_degree :: "'a digraph \<Rightarrow> 'a \<Rightarrow> nat" where
  "in_degree G v = length (predecessors G v)"

definition out_degree :: "'a digraph \<Rightarrow> 'a \<Rightarrow> nat" where
  "out_degree G u = length (successors G u)"

text \<open>Iterating \<open>G.edges\<close>: node by node in node order, each node's out-edges in the
  order they were inserted.\<close>

definition edges_view :: "'a digraph \<Rightarrow> (('a \<times> 'a) \<times> int) list" where
  "edges_view G = concat (map (\<lambda>u. map (\<lambda>(v, d). ((u, v), d)) (out_edges G u)) (nodes G))"

definition edge_rel :: "'a digraph \<Rightarrow> ('a \<times> 'a) set" where
  "edge_rel G = set (map fst (edges G))"

text \<open>\<open>nx.descendants(G, s)\<close>: every node reachable from \<open>s\<close> by a non-empty path, \<open>s\<close>
  itself left out. \<open>nx.is_directed_acyclic_graph(G)\<close>: no directed cycle (a self-loop
  is one). Both are library functions, taken at their documented meaning.\<close>

definition descendants :: "'a digraph \<Rightarrow> 'a \<Rightarrow> 'a list" where
  "descendants G s = filter (\<lambda>v. v \<noteq> s \<and> (s, v) \<in> (edge_rel G)\<^sup>+) (nodes G)"

definition is_directed_acyclic_graph :: "'a digraph \<Rightarrow> bool" where
  "is_directed_acyclic_graph G = acyclic (edge_rel G)"

text \<open>\<open>nx.relabel_nodes(G, f)\<close> builds a new graph: the renamed nodes in node order,
  then the renamed edges in the order of \<open>G.edges\<close>.\<close>

definition relabel_nodes :: "('a \<Rightarrow> 'b) \<Rightarrow> 'a digraph \<Rightarrow> 'b digraph" where
  "relabel_nodes f G =
     fold (\<lambda>e. add_edge (f (fst (fst e))) (f (snd (fst e))) (snd e)) (edges_view G)
       (add_nodes_from (map f (nodes G)) empty_graph)"

section \<open>Random numbers and set iteration\<close>

text \<open>
  The generator draws from Python's \<open>random\<close> module. The model reads the draws from
  two tapes, one for \<open>random.random()\<close> and one for \<open>random.randint(1, 10)\<close>, each with
  the position of the next draw. The result of \<open>random.shuffle\<close> is a parameter of
  the generation. The order in which a Python \<open>set\<close> is iterated is not fixed by
  its contents; it is a parameter too: a function that lists the elements of a set,
  which the model holds as a duplicate-free list.
\<close>

record rng =
  floats :: "nat \<Rightarrow> real"
  fpos :: nat
  ints :: "nat \<Rightarrow> int"
  ipos :: nat

definition random_random :: "rng \<Rightarrow> real \<times> rng" where
  "random_random r = (floats r (fpos r), r\<lparr>fpos := Suc (fpos r)\<rparr>)"

definition randint :: "rng \<Rightarrow> int \<times> rng" where
  "randint r = (ints r (ipos r), r\<lparr>ipos := Suc (ipos r)\<rparr>)"

type_synonym set_order = "nat list \<Rightarrow> nat list"

definition set_add :: "'a \<Rightarrow> 'a list \<Rightarrow> 'a list" where
  "set_add x xs = (if x \<in> set xs then xs else xs @ [x])"

section \<open>\<open>WeightedDAG\<close>\<close>

subsection \<open>Node names\<close>

definition digit :: "nat \<Rightarrow> char" where
  "digit d = ''0123456789'' ! d"

fun str_nat :: "nat \<Rightarrow> string" where
  "str_nat n = (if n < 10 then [digit n] else str_nat (n div 10) @ [digit (n mod 10)])"

declare str_nat.simps [simp del]

definition node_name :: "nat \<Rightarrow> string" where
  "node_name n = ''node_'' @ str_nat n"

subsection \<open>\<open>_generate_connected_dag\<close>\<close>

text \<open>Step 2: for \<open>i < j\<close> an edge from \<open>ordering[i]\<close> to \<open>ordering[j]\<close> when the draw is
  below the edge probability.\<close>

definition index_pairs :: "nat \<Rightarrow> (nat \<times> nat) list" where
  "index_pairs n = concat (map (\<lambda>i. map (Pair i) [Suc i..<n]) [0..<n])"

definition maybe_add_edge ::
  "real \<Rightarrow> nat list \<Rightarrow> nat \<times> nat \<Rightarrow> nat digraph \<times> rng \<Rightarrow> nat digraph \<times> rng" where
  "maybe_add_edge p shuffled ij S =
     (let (x, r1) = random_random (snd S)
      in if x < p
         then (let (d, r2) = randint r1
               in (add_edge (shuffled ! fst ij) (shuffled ! snd ij) d (fst S), r2))
         else (fst S, r1))"

definition add_random_edges ::
  "nat \<Rightarrow> real \<Rightarrow> nat list \<Rightarrow> nat digraph \<times> rng \<Rightarrow> nat digraph \<times> rng" where
  "add_random_edges n p shuffled S = fold (maybe_add_edge p shuffled) (index_pairs n) S"

text \<open>Step 3, the inner loop: for one unreachable node, try the targets in turn, first
  the edge from the node to the target, then the edge from the target to the node; a
  trial edge that closes a cycle is removed again. The result says whether an edge was
  kept.\<close>

fun splice :: "nat \<Rightarrow> nat list \<Rightarrow> nat digraph \<Rightarrow> rng \<Rightarrow> nat digraph \<times> rng \<times> bool" where
  "splice node [] G r = (G, r, False)"
| "splice node (target # ts) G r =
     (let (d1, r1) = randint r;
          G1 = add_edge node target d1 G
      in if is_directed_acyclic_graph G1 then (G1, r1, True)
         else (let G2 = remove_edge node target G1;
                   (d2, r2) = randint r1;
                   G3 = add_edge target node d2 G2
               in if is_directed_acyclic_graph G3 then (G3, r2, True)
                  else splice node ts (remove_edge target node G3) r2))"

definition repair_node ::
  "set_order \<Rightarrow> nat \<Rightarrow> nat digraph \<times> nat list \<times> rng \<Rightarrow> nat digraph \<times> nat list \<times> rng" where
  "repair_node iter node S =
     (case S of (G, reachable, r) \<Rightarrow>
        (case splice node (iter reachable) G r of (G', r', inserted) \<Rightarrow>
           (G', if inserted then set_add node reachable else reachable, r')))"

definition repair ::
  "set_order \<Rightarrow> nat \<Rightarrow> nat digraph \<times> rng \<Rightarrow> nat digraph \<times> rng" where
  "repair iter first S =
     (let G = fst S;
          reachable = descendants G first @ [first];
          unreachable = filter (\<lambda>v. v \<notin> set reachable) (nodes G)
      in case fold (repair_node iter) (iter unreachable) (G, reachable, snd S)
         of (G', reachable', r') \<Rightarrow> (G', r'))"

text \<open>The values the variable \<open>G\<close> takes, one after the other, while \<open>splice\<close> and
  the loop around it run: the graph after each \<open>add_edge\<close> and each \<open>remove_edge\<close> of
  step 3.\<close>

fun splice_states :: "nat \<Rightarrow> nat list \<Rightarrow> nat digraph \<Rightarrow> rng \<Rightarrow> nat digraph list" where
  "splice_states node [] G r = []"
| "splice_states node (target # ts) G r =
     (let (d1, r1) = randint r;
          G1 = add_edge node target d1 G
      in if is_directed_acyclic_graph G1 then [G1]
         else (let G2 = remove_edge node target G1;
                   (d2, r2) = randint r1;
                   G3 = add_edge target node d2 G2
               in if is_directed_acyclic_graph G3 then [G1, G2, G3]
                  else [G1, G2, G3, remove_edge target node G3] @
                       splice_states node ts (remove_edge target node G3) r2))"

fun repair_loop_states ::
  "set_order \<Rightarrow> nat list \<Rightarrow> nat digraph \<times> nat list \<times> rng \<Rightarrow> nat digraph list" where
  "repair_loop_states iter [] S = []"
| "repair_loop_states iter (node # ns) S =
     (case S of (G, reachable, r) \<Rightarrow> splice_states node (iter reachable) G r) @
     repair_loop_states iter ns (repair_node iter node S)"

definition repair_states :: "set_order \<Rightarrow> nat \<Rightarrow> nat digraph \<times> rng \<Rightarrow> nat digraph list" where
  "repair_states iter first S =
     (let G = fst S;
          reachable = descendants G first @ [first];
          unreachable = filter (\<lambda>v. v \<notin> set reachable) (nodes G)
      in repair_loop_states iter (iter unreachable) (G, reachable, snd S))"

definition step3_states :: "int \<Rightarrow> real \<Rightarrow> nat list \<Rightarrow> set_order \<Rightarrow> rng \<Rightarrow> nat digraph list" where
  "step3_states num_nodes edge_probability shuffled iter r =
     (let G0 = add_nodes_from shuffled empty_graph;
          S2 = add_random_edges (nat num_nodes) edge_probability shuffled (G0, r)
      in case shuffled of [] \<Rightarrow> [] | first # _ \<Rightarrow> repair_states iter first S2)"

text \<open>The whole method. \<open>shuffled\<close> is \<open>list(range(num_nodes))\<close> after the shuffle;
  \<open>ordering[0]\<close> raises on the empty list.\<close>

definition generate_connected_dag ::
  "int \<Rightarrow> real \<Rightarrow> nat list \<Rightarrow> set_order \<Rightarrow> rng \<Rightarrow> error + (string digraph \<times> rng)" where
  "generate_connected_dag num_nodes edge_probability shuffled iter r =
     (let G0 = add_nodes_from shuffled empty_graph;
          S2 = add_random_edges (nat num_nodes) edge_probability shuffled (G0, r)
      in case shuffled of
           [] \<Rightarrow> Inl IndexError
         | first # _ \<Rightarrow>
             (case repair iter first S2 of (G, r') \<Rightarrow> Inr (relabel_nodes node_name G, r')))"

subsection \<open>\<open>_get_source_node\<close>\<close>

definition add_virtual_edge ::
  "string \<Rightarrow> string digraph \<times> rng \<Rightarrow> string digraph \<times> rng" where
  "add_virtual_edge s S =
     (let (d, r') = randint (snd S) in (add_edge ''virtual'' s d (fst S), r'))"

definition get_source_node :: "string digraph \<Rightarrow> rng \<Rightarrow> (string digraph \<times> rng) \<times> string" where
  "get_source_node G r =
     (let sources = filter (\<lambda>n. in_degree G n = 0) (nodes G)
      in if length sources = 1 then ((G, r), hd sources)
         else (fold add_virtual_edge sources (G, r), ''virtual''))"

subsection \<open>\<open>_to_schema\<close>\<close>

type_synonym schema = "(string \<times> (string \<times> int) list) list"

text \<open>\<open>schema[u].append(x)\<close> on a \<open>defaultdict(list)\<close>.\<close>

definition schema_append :: "string \<Rightarrow> string \<times> int \<Rightarrow> schema \<Rightarrow> schema" where
  "schema_append u x sch =
     (case map_of sch u of
        None \<Rightarrow> sch @ [(u, [x])]
      | Some l \<Rightarrow> AList.update u (l @ [x]) sch)"

definition to_schema :: "string digraph \<Rightarrow> schema" where
  "to_schema G = fold (\<lambda>e. schema_append (fst (fst e)) (snd (fst e), snd e)) (edges_view G) []"

text \<open>The triples \<open>(node, successor, duration)\<close> of a schema, and those of a graph.\<close>

definition schema_triples :: "schema \<Rightarrow> (string \<times> string \<times> int) list" where
  "schema_triples sch = concat (map (\<lambda>(u, l). map (\<lambda>(v, d). (u, v, d)) l) sch)"

definition graph_triples :: "string digraph \<Rightarrow> (string \<times> string \<times> int) set" where
  "graph_triples G = (\<lambda>e. (fst (fst e), snd (fst e), snd e)) ` set (edges G)"

subsection \<open>The constructor\<close>

record weighted_dag =
  num_nodes :: int
  edge_probability :: real
  graph :: "string digraph"
  source :: string
  schema :: schema

definition weighted_dag_init ::
  "int \<Rightarrow> real \<Rightarrow> nat list \<Rightarrow> set_order \<Rightarrow> rng \<Rightarrow> error + weighted_dag" where
  "weighted_dag_init n p shuffled iter r =
     (case generate_connected_dag n p shuffled iter r of
        Inl e \<Rightarrow> Inl e
      | Inr (G, r') \<Rightarrow>
          (case get_source_node G r' of ((G', r''), src) \<Rightarrow>
             Inr \<lparr>num_nodes = n, edge_probability = p, graph = G', source = src,
                  schema = to_schema G'\<rparr>))"

section \<open>\<open>WorkflowExecutor\<close>\<close>

text \<open>
  The executor runs on one asyncio event loop. A coroutine \<open>_run_node_task(node)\<close>
  gives up control at one place only, the \<open>await\<close> of \<open>strategy.execute\<close>: the two
  \<open>async with self.lock\<close> blocks hold no \<open>await\<close>, so the lock is free whenever a
  coroutine asks for it and taking it never waits. A task therefore runs in two atomic
  parts: from its start to the call of the strategy (\<open>begin_task\<close>), and from the return
  of the strategy to its end (\<open>finish_task\<close>). The model keeps the tasks that are not
  finished in the field \<open>tasks\<close>, and lets a scheduler, a parameter, choose which task
  runs its next part, what the strategy returned if it is the second part, and what
  \<open>time.perf_counter()\<close> reads. The fields \<open>calls\<close> and \<open>outcomes\<close> record what was
  passed to \<open>strategy.execute\<close> and what came back. An exception of the strategy is one
  caught by \<open>except Exception\<close>, with \<open>str(e)\<close> as its message.
\<close>

datatype outcome = Returns string | Raises string

datatype task = Created string | Awaiting string real

fun task_node :: "task \<Rightarrow> string" where
  "task_node (Created n) = n"
| "task_node (Awaiting n t) = n"

record exec_state =
  results :: "(string \<times> string) list"
  timings :: "(string \<times> real) list"
  active_tasks :: int
  max_parallelism :: int
  child_inputs :: "string \<Rightarrow> string list"
  in_degrees :: "(string \<times> int) list"
  wall_start_time :: "real option"
  wall_end_time :: "real option"
  tasks :: "task list"
  calls :: "(string \<times> string list \<times> int) list"
  outcomes :: "(string \<times> outcome) list"

type_synonym scheduler = "exec_state \<Rightarrow> nat \<times> outcome \<times> real"

definition executor_init :: "weighted_dag \<Rightarrow> exec_state" where
  "executor_init dag =
     \<lparr>results = [], timings = [], active_tasks = 0, max_parallelism = 0,
      child_inputs = (\<lambda>_. []),
      in_degrees = map (\<lambda>node. (node, int (in_degree (graph dag) node))) (nodes (graph dag)),
      wall_start_time = None, wall_end_time = None,
      tasks = [], calls = [], outcomes = []\<rparr>"

text \<open>The first part of \<open>_run_node_task\<close>, up to the call of the strategy, which gets the
  empty input list and the sum of the durations of the edges into the node.
  \<open>graph.predecessors\<close> raises for a node that is not in the graph. An exception ends the
  task; it is returned with the state as the task left it.\<close>

definition begin_task ::
  "string digraph \<Rightarrow> string \<Rightarrow> real \<Rightarrow> exec_state \<Rightarrow> (error \<times> exec_state) + exec_state" where
  "begin_task G node now st =
     (let active = active_tasks st + 1;
          st1 = st\<lparr>active_tasks := active,
                   max_parallelism := max (max_parallelism st) active\<rparr>
      in if node \<notin> set (nodes G) then Inl (NetworkXError, st1)
         else (let incoming_durations = map snd (in_edges G node);
                   total_duration = sum_list incoming_durations
               in Inr (st1\<lparr>tasks := tasks st1 @ [Awaiting node now],
                           calls := calls st1 @ [(node, [], total_duration)]\<rparr>)))"

text \<open>The loop over the successors at the end of \<open>_run_node_task\<close>.\<close>

fun release :: "string \<Rightarrow> string list \<Rightarrow> exec_state \<Rightarrow> (error \<times> exec_state) + exec_state" where
  "release result [] st = Inr st"
| "release result (succ # ss) st =
     (case map_of (in_degrees st) succ of
        None \<Rightarrow> Inl (KeyError, st)
      | Some k \<Rightarrow>
          (let st1 = st\<lparr>in_degrees := AList.update succ (k - 1) (in_degrees st),
                        child_inputs := (child_inputs st)(succ := child_inputs st succ @ [result])\<rparr>;
               st2 = (if k - 1 = 0 then st1\<lparr>tasks := tasks st1 @ [Created succ]\<rparr> else st1)
           in release result ss st2))"

definition result_of :: "outcome \<Rightarrow> string" where
  "result_of out = (case out of Returns s \<Rightarrow> s | Raises msg \<Rightarrow> ''ERROR: '' @ msg)"

text \<open>The second part of \<open>_run_node_task\<close>, from the return of the strategy on.\<close>

definition finish_task ::
  "string digraph \<Rightarrow> string \<Rightarrow> real \<Rightarrow> outcome \<Rightarrow> real \<Rightarrow> exec_state \<Rightarrow>
   (error \<times> exec_state) + exec_state" where
  "finish_task G node start_time out end_time st =
     (let result = result_of out;
          st1 = st\<lparr>results := AList.update node result (results st),
                   timings := AList.update node (end_time - start_time) (timings st),
                   outcomes := outcomes st @ [(node, out)],
                   active_tasks := active_tasks st - 1\<rparr>
      in release result (successors G node) st1)"

text \<open>One step of the event loop: the task the scheduler chooses runs its next part.\<close>

definition run_task ::
  "string digraph \<Rightarrow> task \<Rightarrow> outcome \<Rightarrow> real \<Rightarrow> exec_state \<Rightarrow> (error \<times> exec_state) + exec_state" where
  "run_task G t out now st =
     (case t of
        Created node \<Rightarrow> begin_task G node now st
      | Awaiting node start_time \<Rightarrow> finish_task G node start_time out now st)"

definition pick_task ::
  "string digraph \<Rightarrow> scheduler \<Rightarrow> exec_state \<Rightarrow> (error \<times> exec_state) + exec_state" where
  "pick_task G sched st =
     (case sched st of (i, out, now) \<Rightarrow>
        (let k = i mod length (tasks st)
         in run_task G (tasks st ! k) out now
              (st\<lparr>tasks := take k (tasks st) @ drop (Suc k) (tasks st)\<rparr>)))"

text \<open>An exception in a task made by \<open>create_task\<close> ends that task and goes no further.
  With no task left the loop only sleeps.\<close>

definition event_loop_step :: "string digraph \<Rightarrow> scheduler \<Rightarrow> exec_state \<Rightarrow> exec_state" where
  "event_loop_step G sched st =
     (if tasks st = [] then st
      else (case pick_task G sched st of Inl (e, st') \<Rightarrow> st' | Inr st' \<Rightarrow> st'))"

text \<open>The state after \<open>k\<close> steps of the event loop.\<close>

fun event_loop_steps :: "nat \<Rightarrow> string digraph \<Rightarrow> scheduler \<Rightarrow> exec_state \<Rightarrow> exec_state" where
  "event_loop_steps 0 G sched st = st"
| "event_loop_steps (Suc k) G sched st = event_loop_steps k G sched (event_loop_step G sched st)"

text \<open>\<open>_wait_until_all_done\<close>: the loop has no bound in the code; the model counts its
  rounds and returns \<open>None\<close> when the count runs out. The poll is taken after every step
  of a task.\<close>

fun wait_until_all_done ::
  "nat \<Rightarrow> string digraph \<Rightarrow> scheduler \<Rightarrow> exec_state \<Rightarrow> exec_state option" where
  "wait_until_all_done 0 G sched st = None"
| "wait_until_all_done (Suc fuel) G sched st =
     (if length (results st) < length (nodes G)
      then wait_until_all_done fuel G sched (event_loop_step G sched st)
      else Some st)"

text \<open>\<open>run\<close>: the source task is awaited by \<open>run\<close> itself, so an exception in it ends
  \<open>run\<close>.\<close>

definition clock :: "scheduler \<Rightarrow> exec_state \<Rightarrow> real" where
  "clock sched st = snd (snd (sched st))"

definition start_state :: "weighted_dag \<Rightarrow> scheduler \<Rightarrow> exec_state \<Rightarrow> exec_state" where
  "start_state dag sched st =
     st\<lparr>wall_start_time := Some (clock sched st), tasks := [Created (source dag)]\<rparr>"

definition run ::
  "nat \<Rightarrow> weighted_dag \<Rightarrow> scheduler \<Rightarrow> exec_state \<Rightarrow> (error + exec_state) option" where
  "run fuel dag sched st =
     (case pick_task (graph dag) sched (start_state dag sched st) of
        Inl (e, _) \<Rightarrow> Some (Inl e)
      | Inr st1 \<Rightarrow>
          (case pick_task (graph dag) sched st1 of
             Inl (e, _) \<Rightarrow> Some (Inl e)
           | Inr st2 \<Rightarrow>
               (case wait_until_all_done fuel (graph dag) sched st2 of
                  None \<Rightarrow> None
                | Some st3 \<Rightarrow> Some (Inr (st3\<lparr>wall_end_time := Some (clock sched st3)\<rparr>)))))"

text \<open>The states a run can pass through, whatever the scheduler does.\<close>

inductive reachable :: "weighted_dag \<Rightarrow> exec_state \<Rightarrow> bool" for dag where
  start: "reachable dag (start_state dag sched (executor_init dag))"
| step: "reachable dag st \<Longrightarrow> tasks st \<noteq> [] \<Longrightarrow> pick_task (graph dag) sched st = Inr st' \<Longrightarrow>
         reachable dag st'"
| fail: "reachable dag st \<Longrightarrow> tasks st \<noteq> [] \<Longrightarrow> pick_task (graph dag) sched st = Inl (e, st') \<Longrightarrow>
         reachable dag st'"

subsection \<open>\<open>get_performance_metrics\<close>\<close>

text \<open>Python floats are taken as real numbers, with \<open>float('inf')\<close> as a value of its
  own. The subtraction of the wall times raises when \<open>run\<close> has not set them.\<close>

datatype py_float = Finite real | Infinity

record metrics =
  wall_time :: real
  sequential_time :: real
  time_saved :: real
  speedup :: py_float
  alpha :: real
  critical_path :: real
  node_count :: nat
  metrics_max_parallelism :: int

definition get_performance_metrics :: "exec_state \<Rightarrow> error + metrics" where
  "get_performance_metrics st =
     (case (wall_end_time st, wall_start_time st) of
        (Some end_time, Some start_time) \<Rightarrow>
          (let total_sequential_time = sum_list (map snd (timings st));
               total_wall_time = end_time - start_time;
               saved = total_sequential_time - total_wall_time;
               sp = (if total_wall_time > 0 then Finite (total_sequential_time / total_wall_time)
                     else Infinity);
               a = (if total_sequential_time \<noteq> 0
                    then min 1 (max 0 (1 - saved / total_sequential_time)) else 1)
           in Inr \<lparr>wall_time = total_wall_time, sequential_time = total_sequential_time,
                   time_saved = saved, speedup = sp, alpha = a,
                   critical_path = (case map snd (timings st) of [] \<Rightarrow> 0 | v # vs \<Rightarrow> fold max vs v),
                   node_count = length (timings st),
                   metrics_max_parallelism = max_parallelism st\<rparr>)
      | _ \<Rightarrow> Inl TypeError)"

section \<open>Well-formed graphs\<close>

text \<open>The invariants of a \<open>DiGraph\<close> value in this representation: no node and no edge
  is listed twice, and every end point of an edge is a node.\<close>

definition graph_ok :: "'a digraph \<Rightarrow> bool" where
  "graph_ok G \<longleftrightarrow>
     distinct (nodes G) \<and> distinct (map fst (edges G)) \<and> Field (edge_rel G) \<subseteq> set (nodes G)"

text \<open>The pairs that point forward along a list.\<close>

definition forward_rel :: "'a list \<Rightarrow> ('a \<times> 'a) set" where
  "forward_rel xs = {(xs ! i, xs ! j) | i j. i < j \<and> j < length xs}"

text \<open>A sequence of graph states in which a cycle never outlives one step: every state
  is acyclic, or the next state is that state with one edge removed and is acyclic.\<close>

fun trials_undone :: "'a digraph list \<Rightarrow> bool" where
  "trials_undone [] = True"
| "trials_undone [G] = is_directed_acyclic_graph G"
| "trials_undone (G # G' # Gs) =
     ((is_directed_acyclic_graph G \<or>
       (is_directed_acyclic_graph G' \<and> (\<exists>u v. G' = remove_edge u v G))) \<and>
      trials_undone (G' # Gs))"

text \<open>A well-formed acyclic graph whose only node of in-degree 0 is \<open>src\<close>.\<close>

definition single_source_dag :: "'a digraph \<Rightarrow> 'a \<Rightarrow> bool" where
  "single_source_dag G src \<longleftrightarrow>
     graph_ok G \<and> acyclic (edge_rel G) \<and> filter (\<lambda>n. in_degree G n = 0) (nodes G) = [src]"

section \<open>Invariants of the executor\<close>

definition finished :: "exec_state \<Rightarrow> string set" where
  "finished st = fst ` set (results st)"

definition preds :: "'a digraph \<Rightarrow> 'a \<Rightarrow> 'a set" where
  "preds G v = {u. (u, v) \<in> edge_rel G}"

fun is_awaiting :: "task \<Rightarrow> bool" where
  "is_awaiting (Created n) = False"
| "is_awaiting (Awaiting n t) = True"

text \<open>Scheduling: no node is finished twice or has two tasks, a node has been started
  (it is finished or has a task) exactly when all its predecessors are finished, and the
  counter of a node is the number of its unfinished predecessors.\<close>

definition sched_inv :: "string digraph \<Rightarrow> exec_state \<Rightarrow> bool" where
  "sched_inv G st \<longleftrightarrow>
     distinct (map fst (results st)) \<and>
     distinct (map task_node (tasks st)) \<and>
     task_node ` set (tasks st) \<inter> finished st = {} \<and>
     finished st \<union> task_node ` set (tasks st) =
       {v \<in> set (nodes G). preds G v \<subseteq> finished st} \<and>
     map fst (in_degrees st) = nodes G \<and>
     (\<forall>v \<in> set (nodes G).
        map_of (in_degrees st) v = Some (int (card (preds G v - finished st))))"

text \<open>Bookkeeping: the strategy has been called once for each node that is finished or
  waits for its strategy, always with the empty input list and the sum of the incoming
  durations, and the recorded result of a finished node is what its call produced.\<close>

definition log_inv :: "string digraph \<Rightarrow> exec_state \<Rightarrow> bool" where
  "log_inv G st \<longleftrightarrow>
     map fst (timings st) = map fst (results st) \<and>
     distinct (map fst (calls st)) \<and>
     set (map fst (calls st)) =
       finished st \<union> task_node ` {t \<in> set (tasks st). is_awaiting t} \<and>
     (\<forall>c \<in> set (calls st). c = (fst c, [], sum_list (map snd (in_edges G (fst c))))) \<and>
     map fst (outcomes st) = map fst (results st) \<and>
     (\<forall>no \<in> set (outcomes st). map_of (results st) (fst no) = Some (result_of (snd no)))"

text \<open>A bound on the steps still to come.\<close>

definition remaining :: "string digraph \<Rightarrow> exec_state \<Rightarrow> nat" where
  "remaining G st =
     2 * card (set (nodes G) - finished st) - length (filter is_awaiting (tasks st))"

text \<open>A concrete run: three nodes shuffled to \<open>[2, 0, 1]\<close>, the draws of
  \<open>random.random()\<close> at \<open>0.9, 0.9, 0.1, 0.9, \<dots>\<close>, those of \<open>randint\<close> at
  \<open>1, 2, 3, \<dots>\<close>, and sets iterated in ascending order.\<close>

definition example_rng :: rng where
  "example_rng = \<lparr>floats = (\<lambda>k. if k = 2 then 1 / 10 else 9 / 10), fpos = 0,
                   ints = (\<lambda>k. int k + 1), ipos = 0\<rparr>"

text \<open>A second example: every forward edge is drawn, so \<open>node_2\<close> has two predecessors;
  the scheduler always runs the oldest task, and the strategy raises on its first call and
  returns on the later ones.\<close>

definition all_edges_rng :: rng where
  "all_edges_rng = \<lparr>floats = (\<lambda>k. 1 / 10), fpos = 0, ints = (\<lambda>k. int k + 1), ipos = 0\<rparr>"

definition example_dag :: weighted_dag where
  "example_dag =
     \<lparr>num_nodes = 3, edge_probability = 1 / 2,
      graph = \<lparr>nodes = [''node_0'', ''node_1'', ''node_2''],
                edges = [((''node_0'', ''node_1''), 1), ((''node_0'', ''node_2''), 2),
                         ((''node_1'', ''node_2''), 3)]\<rparr>,
      source = ''node_0'',
      schema = [(''node_0'', [(''node_1'', 1), (''node_2'', 2)]), (''node_1'', [(''node_2'', 3)])]\<rparr>"

definition example_sched :: scheduler where
  "example_sched st =
     (0, (if outcomes st = [] then Raises ''boom'' else Returns ''ok''),
      real (length (calls st) + length (results st)))"

section \<open>Properties\<close>

subsection \<open>Basic facts about the graph operations\<close>


lemma nodes_add_node: "set (nodes (add_node n G)) = insert n (set (nodes G))"
  by (auto simp: add_node_def)

lemma edges_add_node [simp]: "edges (add_node n G) = edges G"
  by (simp add: add_node_def)

lemma distinct_add_node: "distinct (nodes G) \<Longrightarrow> distinct (nodes (add_node n G))"
  by (simp add: add_node_def)

lemma edge_rel_add_node [simp]: "edge_rel (add_node n G) = edge_rel G"
  by (simp add: edge_rel_def)

lemma nodes_add_edge: "set (nodes (add_edge u v d G)) = insert u (insert v (set (nodes G)))"
  by (auto simp: add_edge_def Let_def nodes_add_node)

lemma edge_rel_add_edge: "edge_rel (add_edge u v d G) = insert (u, v) (edge_rel G)"
  using AList.dom_update [of "(u, v)" d "edges G"]
  by (simp add: add_edge_def Let_def edge_rel_def)

lemma edge_rel_remove_edge: "edge_rel (remove_edge u v G) = edge_rel G - {(u, v)}"
  by (auto simp: remove_edge_def edge_rel_def AList.delete_eq)

lemma nodes_remove_edge [simp]: "nodes (remove_edge u v G) = nodes G"
  by (simp add: remove_edge_def)

lemma graph_ok_empty: "graph_ok empty_graph"
  by (simp add: graph_ok_def empty_graph_def edge_rel_def)

lemma graph_ok_add_node: "graph_ok G \<Longrightarrow> graph_ok (add_node n G)"
  by (auto simp: graph_ok_def distinct_add_node nodes_add_node)

lemma nodes_list_add_edge: "nodes (add_edge u v d G) = nodes (add_node v (add_node u G))"
  by (simp add: add_edge_def Let_def)

lemma edges_add_edge: "edges (add_edge u v d G) = AList.update (u, v) d (edges G)"
  by (simp add: add_edge_def Let_def)

lemma graph_ok_add_edge:
  assumes "graph_ok G"
  shows "graph_ok (add_edge u v d G)"
proof -
  have "distinct (nodes (add_edge u v d G))"
    using assms by (simp add: graph_ok_def nodes_list_add_edge distinct_add_node)
  moreover have "distinct (map fst (edges (add_edge u v d G)))"
    using assms by (simp add: graph_ok_def edges_add_edge AList.distinct_update)
  moreover have "Field (edge_rel (add_edge u v d G)) \<subseteq> set (nodes (add_edge u v d G))"
    using assms by (auto simp: graph_ok_def edge_rel_add_edge nodes_add_edge Field_def)
  ultimately show ?thesis by (simp add: graph_ok_def)
qed

lemma graph_ok_remove_edge: "graph_ok G \<Longrightarrow> graph_ok (remove_edge u v G)"
  unfolding graph_ok_def
  by (auto simp: edge_rel_remove_edge Field_def)
    (simp add: remove_edge_def AList.distinct_delete)

lemma nodes_add_nodes_from: "set (nodes (add_nodes_from ns G)) = set ns \<union> set (nodes G)"
  unfolding add_nodes_from_def
  by (induction ns arbitrary: G) (auto simp: nodes_add_node)

lemma edges_add_nodes_from [simp]: "edges (add_nodes_from ns G) = edges G"
  unfolding add_nodes_from_def
  by (induction ns arbitrary: G) auto

lemma graph_ok_add_nodes_from: "graph_ok G \<Longrightarrow> graph_ok (add_nodes_from ns G)"
  unfolding add_nodes_from_def
  by (induction ns arbitrary: G) (auto simp: graph_ok_add_node)

lemma in_degree_zero_iff: "in_degree G v = 0 \<longleftrightarrow> v \<notin> Range (edge_rel G)"
  by (force simp: in_degree_def predecessors_def in_edges_def edge_rel_def filter_empty_conv
      Range_iff)

lemma out_degree_zero_iff: "out_degree G u = 0 \<longleftrightarrow> u \<notin> Domain (edge_rel G)"
  by (force simp: out_degree_def successors_def out_edges_def edge_rel_def filter_empty_conv
      Domain_iff)

lemma finite_edge_rel [simp]: "finite (edge_rel G)"
  by (simp add: edge_rel_def)

subsection \<open>Finite acyclic graphs\<close>

lemma dag_has_root:
  assumes "finite r" and "acyclic r"
  shows "\<exists>s. (s, v) \<in> r\<^sup>* \<and> s \<notin> Range r"
proof -
  have "wf r" using assms by (rule finite_acyclic_wf)
  then show ?thesis
  proof (induction v rule: wf_induct_rule)
    case (less v)
    show ?case
    proof (cases "v \<in> Range r")
      case False
      then show ?thesis by blast
    next
      case True
      then obtain u where u: "(u, v) \<in> r" by blast
      from less [OF u] obtain s where "(s, u) \<in> r\<^sup>*" "s \<notin> Range r" by blast
      with u show ?thesis by (meson rtrancl.rtrancl_into_rtrancl)
    qed
  qed
qed

lemma dag_has_sink:
  assumes "finite r" and "acyclic r"
  shows "\<exists>t. (v, t) \<in> r\<^sup>* \<and> t \<notin> Domain r"
proof -
  have "finite (r\<inverse>)" "acyclic (r\<inverse>)" using assms by simp_all
  from dag_has_root [OF this, of v] obtain s where "(s, v) \<in> (r\<inverse>)\<^sup>*" "s \<notin> Range (r\<inverse>)"
    by blast
  then show ?thesis by (auto simp: rtrancl_converse)
qed

lemma rtrancl_in_nodes:
  assumes "(s, v) \<in> r\<^sup>*" and "v \<in> A" and "Field r \<subseteq> A"
  shows "s \<in> A"
  using assms by (induction rule: converse_rtrancl_induct) (auto simp: Field_def)

lemma rtrancl_in_nodes2:
  assumes "(s, v) \<in> r\<^sup>*" and "s \<in> A" and "Field r \<subseteq> A"
  shows "v \<in> A"
  using assms by (induction rule: rtrancl_induct) (auto simp: Field_def)

lemma digit_inj: "a < 10 \<Longrightarrow> b < 10 \<Longrightarrow> digit a = digit b \<Longrightarrow> a = b"
proof -
  assume a: "a < 10" and b: "b < 10" and e: "digit a = digit b"
  have d: "distinct ''0123456789''" by simp
  have l: "length ''0123456789'' = 10" by simp
  from e have "''0123456789'' ! a = ''0123456789'' ! b" by (simp add: digit_def)
  with d a b l show "a = b" by (metis nth_eq_iff_index_eq)
qed

lemma str_nat_nonempty: "str_nat n \<noteq> []"
  by (subst str_nat.simps) simp

lemma str_nat_inj: "str_nat n = str_nat m \<Longrightarrow> n = m"
proof (induction n arbitrary: m rule: str_nat.induct)
  case (1 n)
  show ?case
  proof (cases "n < 10")
    case n: True
    show ?thesis
    proof (cases "m < 10")
      case True
      with n "1.prems" show ?thesis
        by (simp add: str_nat.simps [of n] str_nat.simps [of m] digit_inj)
    next
      case False
      with n "1.prems" show ?thesis
        using str_nat_nonempty [of "m div 10"]
        by (simp add: str_nat.simps [of n] str_nat.simps [of m] Cons_eq_append_conv)
    qed
  next
    case n: False
    show ?thesis
    proof (cases "m < 10")
      case True
      with n "1.prems" show ?thesis
        using str_nat_nonempty [of "n div 10"]
        by (simp add: str_nat.simps [of n] str_nat.simps [of m] append_eq_Cons_conv)
    next
      case False
      with n "1.prems" have e: "str_nat (n div 10) = str_nat (m div 10)"
        and d: "digit (n mod 10) = digit (m mod 10)"
        by (simp_all add: str_nat.simps [of n] str_nat.simps [of m])
      from "1.IH" [OF n e] have "n div 10 = m div 10" .
      moreover from d have "n mod 10 = m mod 10" by (simp add: digit_inj)
      ultimately show ?thesis by (metis div_mult_mod_eq)
    qed
  qed
qed

lemma node_name_inj: "node_name a = node_name b \<Longrightarrow> a = b"
  by (simp add: node_name_def str_nat_inj)

lemma node_name_not_virtual: "node_name a \<noteq> ''virtual''"
  by (simp add: node_name_def)

subsection \<open>Step 2 keeps the edges forward along the shuffled order\<close>


lemma acyclic_forward_rel:
  assumes "distinct xs"
  shows "acyclic (forward_rel xs)"
proof -
  define idx where "idx x = (THE i. i < length xs \<and> xs ! i = x)" for x
  have idx: "idx (xs ! i) = i" if "i < length xs" for i
    unfolding idx_def using that assms by (auto simp: nth_eq_iff_index_eq)
  have "acyclic ((forward_rel xs)\<inverse>)"
  proof (rule acyclicI_order [where f = idx])
    fix a b assume "(a, b) \<in> (forward_rel xs)\<inverse>"
    then obtain i j where "b = xs ! i" "a = xs ! j" "i < j" "j < length xs"
      by (auto simp: forward_rel_def)
    then show "idx b < idx a" by (simp add: idx)
  qed
  then show ?thesis by simp
qed

lemma set_index_pairs: "ij \<in> set (index_pairs n) \<Longrightarrow> fst ij < snd ij \<and> snd ij < n"
  by (auto simp: index_pairs_def)

lemma maybe_add_edge_cases:
  "fst (maybe_add_edge p xs ij S) = fst S \<or>
   (\<exists>d. fst (maybe_add_edge p xs ij S) = add_edge (xs ! fst ij) (xs ! snd ij) d (fst S))"
  by (auto simp: maybe_add_edge_def Let_def split: prod.splits)

lemma add_random_edges_inv:
  assumes "\<forall>ij \<in> set ps. fst ij < snd ij \<and> snd ij < length xs"
    and "graph_ok (fst S)" and "edge_rel (fst S) \<subseteq> forward_rel xs"
  shows "graph_ok (fst (fold (maybe_add_edge p xs) ps S)) \<and>
         edge_rel (fst (fold (maybe_add_edge p xs) ps S)) \<subseteq> forward_rel xs"
  using assms
proof (induction ps arbitrary: S)
  case Nil
  then show ?case by simp
next
  case (Cons ij ps)
  let ?S = "maybe_add_edge p xs ij S"
  have ij: "fst ij < snd ij" "snd ij < length xs" using Cons.prems(1) by auto
  then have "(xs ! fst ij, xs ! snd ij) \<in> forward_rel xs"
    by (auto simp: forward_rel_def)
  with Cons.prems maybe_add_edge_cases [of p xs ij S]
  have "graph_ok (fst ?S)" "edge_rel (fst ?S) \<subseteq> forward_rel xs"
    by (auto simp: graph_ok_add_edge edge_rel_add_edge)
  with Cons.IH [of ?S] Cons.prems(1) show ?case by simp
qed

subsection \<open>Step 3 keeps the graph acyclic\<close>

lemma splice_inv:
  assumes "graph_ok G" and "acyclic (edge_rel G)"
  shows "graph_ok (fst (splice node ts G r)) \<and> acyclic (edge_rel (fst (splice node ts G r)))"
  using assms
proof (induction ts arbitrary: G r)
  case Nil
  then show ?case by simp
next
  case (Cons t ts)
  obtain d1 r1 where d1: "randint r = (d1, r1)" by (cases "randint r")
  obtain d2 r2 where d2: "randint r1 = (d2, r2)" by (cases "randint r1")
  let ?G1 = "add_edge node t d1 G"
  let ?G2 = "remove_edge node t ?G1"
  let ?G3 = "add_edge t node d2 ?G2"
  let ?G4 = "remove_edge t node ?G3"
  have ok: "graph_ok ?G1" "graph_ok ?G2" "graph_ok ?G3" "graph_ok ?G4"
    using Cons.prems(1) by (simp_all add: graph_ok_add_edge graph_ok_remove_edge)
  have "edge_rel ?G4 \<subseteq> edge_rel G"
    by (auto simp: edge_rel_add_edge edge_rel_remove_edge)
  with Cons.prems(2) have ac: "acyclic (edge_rel ?G4)" by (rule acyclic_subset)
  show ?case
    using ok ac Cons.IH [of ?G4 r2]
    by (simp add: d1 d2 Let_def is_directed_acyclic_graph_def)
qed

lemma repair_node_inv:
  assumes "graph_ok (fst S)" and "acyclic (edge_rel (fst S))"
  shows "graph_ok (fst (repair_node iter node S)) \<and>
         acyclic (edge_rel (fst (repair_node iter node S)))"
proof -
  obtain G reachable r where S: "S = (G, reachable, r)" by (cases S)
  obtain G' r' ins where sp: "splice node (iter reachable) G r = (G', r', ins)"
    by (cases "splice node (iter reachable) G r")
  from splice_inv [of G node "iter reachable" r] assms S sp show ?thesis
    by (simp add: repair_node_def)
qed

lemma fold_repair_node_inv:
  assumes "graph_ok (fst S)" and "acyclic (edge_rel (fst S))"
  shows "graph_ok (fst (fold (repair_node iter) us S)) \<and>
         acyclic (edge_rel (fst (fold (repair_node iter) us S)))"
  using assms by (induction us arbitrary: S) (simp_all add: repair_node_inv)

lemma repair_inv:
  assumes "graph_ok (fst S)" and "acyclic (edge_rel (fst S))"
  shows "graph_ok (fst (repair iter first S)) \<and> acyclic (edge_rel (fst (repair iter first S)))"
proof -
  let ?reachable = "descendants (fst S) first @ [first]"
  let ?unreachable = "filter (\<lambda>v. v \<notin> set ?reachable) (nodes (fst S))"
  let ?F = "fold (repair_node iter) (iter ?unreachable) (fst S, ?reachable, snd S)"
  have "graph_ok (fst ?F) \<and> acyclic (edge_rel (fst ?F))"
    using assms by (intro fold_repair_node_inv) simp_all
  then show ?thesis
    by (simp add: repair_def Let_def case_prod_beta)
qed

subsection \<open>Node sets only grow during generation\<close>

lemma nodes_maybe_add_edge: "set (nodes (fst S)) \<subseteq> set (nodes (fst (maybe_add_edge p xs ij S)))"
  using maybe_add_edge_cases [of p xs ij S] by (auto simp: nodes_add_edge)

lemma nodes_add_random_edges:
  "set (nodes (fst S)) \<subseteq> set (nodes (fst (fold (maybe_add_edge p xs) ps S)))"
proof (induction ps arbitrary: S)
  case Nil
  show ?case by simp
next
  case (Cons ij ps)
  from nodes_maybe_add_edge [of S p xs ij] Cons [of "maybe_add_edge p xs ij S"]
  show ?case by auto
qed

lemma nodes_splice: "set (nodes G) \<subseteq> set (nodes (fst (splice node ts G r)))"
proof (induction ts arbitrary: G r)
  case Nil
  show ?case by simp
next
  case (Cons t ts)
  obtain d1 r1 where d1: "randint r = (d1, r1)" by (cases "randint r")
  obtain d2 r2 where d2: "randint r1 = (d2, r2)" by (cases "randint r1")
  let ?G4 = "remove_edge t node (add_edge t node d2 (remove_edge node t (add_edge node t d1 G)))"
  have "set (nodes G) \<subseteq> set (nodes ?G4)" by (auto simp: nodes_add_edge)
  with Cons [of ?G4 r2] have "set (nodes G) \<subseteq> set (nodes (fst (splice node ts ?G4 r2)))"
    by blast
  then show ?case
    by (auto simp: d1 d2 Let_def nodes_add_edge)
qed

lemma nodes_repair_node: "set (nodes (fst S)) \<subseteq> set (nodes (fst (repair_node iter node S)))"
proof -
  obtain G reachable r where S: "S = (G, reachable, r)" by (cases S)
  obtain G' r' ins where sp: "splice node (iter reachable) G r = (G', r', ins)"
    by (cases "splice node (iter reachable) G r")
  from nodes_splice [of G node "iter reachable" r] S sp show ?thesis
    by (simp add: repair_node_def)
qed

lemma nodes_fold_repair_node:
  "set (nodes (fst S)) \<subseteq> set (nodes (fst (fold (repair_node iter) us S)))"
proof (induction us arbitrary: S)
  case Nil
  show ?case by simp
next
  case (Cons u us)
  from nodes_repair_node [of S iter u] Cons [of "repair_node iter u S"]
  show ?case by auto
qed

lemma nodes_repair: "set (nodes (fst S)) \<subseteq> set (nodes (fst (repair iter first S)))"
  using nodes_fold_repair_node
    [of "(fst S, descendants (fst S) first @ [first], snd S)" iter]
  by (simp add: repair_def Let_def case_prod_beta)

subsection \<open>Renaming the nodes\<close>

lemma set_edges_view:
  "set (edges_view G) = {e \<in> set (edges G). fst (fst e) \<in> set (nodes G)}"
  by (force simp: edges_view_def out_edges_def)

lemma set_edges_view_ok: "graph_ok G \<Longrightarrow> set (edges_view G) = set (edges G)"
  by (force simp: set_edges_view graph_ok_def edge_rel_def Field_def Domain_iff)

lemma fold_add_edge_ok:
  "graph_ok H \<Longrightarrow>
   graph_ok (fold (\<lambda>e. add_edge (f (fst (fst e))) (f (snd (fst e))) (snd e)) es H)"
  by (induction es arbitrary: H) (simp_all add: graph_ok_add_edge)

lemma fold_add_edge_rel:
  "edge_rel (fold (\<lambda>e. add_edge (f (fst (fst e))) (f (snd (fst e))) (snd e)) es H) =
   edge_rel H \<union> (\<lambda>e. (f (fst (fst e)), f (snd (fst e)))) ` set es"
  by (induction es arbitrary: H) (auto simp: edge_rel_add_edge)

lemma fold_add_edge_nodes:
  "set (nodes (fold (\<lambda>e. add_edge (f (fst (fst e))) (f (snd (fst e))) (snd e)) es H)) =
   set (nodes H) \<union> (\<lambda>e. f (fst (fst e))) ` set es \<union> (\<lambda>e. f (snd (fst e))) ` set es"
  by (induction es arbitrary: H) (auto simp: nodes_add_edge)

lemma graph_ok_relabel: "graph_ok (relabel_nodes f G)"
  unfolding relabel_nodes_def
  by (intro fold_add_edge_ok graph_ok_add_nodes_from graph_ok_empty)

lemma edge_rel_relabel:
  assumes "graph_ok G"
  shows "edge_rel (relabel_nodes f G) = map_prod f f ` edge_rel G"
proof -
  have "edge_rel (add_nodes_from (map f (nodes G)) (empty_graph :: 'b digraph)) = {}"
    by (simp add: edge_rel_def empty_graph_def)
  then have "edge_rel (relabel_nodes f G) =
      (\<lambda>e. (f (fst (fst e)), f (snd (fst e)))) ` set (edges G)"
    unfolding relabel_nodes_def fold_add_edge_rel by (simp add: set_edges_view_ok [OF assms])
  also have "\<dots> = map_prod f f ` edge_rel G"
    by (force simp: edge_rel_def image_iff)
  finally show ?thesis .
qed

lemma nodes_relabel:
  assumes "graph_ok G"
  shows "set (nodes (relabel_nodes f G)) = f ` set (nodes G)"
proof -
  have "fst e \<in> edge_rel G" if "e \<in> set (edges G)" for e
    using that by (simp add: edge_rel_def)
  then have "fst (fst e) \<in> set (nodes G) \<and> snd (fst e) \<in> set (nodes G)"
    if "e \<in> set (edges G)" for e
    using assms that unfolding graph_ok_def Field_def
    by (metis Domain.DomainI Range.intros UnCI prod.collapse subsetD)
  moreover have "set (nodes (relabel_nodes f G)) =
      f ` set (nodes G) \<union> (\<lambda>e. f (fst (fst e))) ` set (edges G) \<union>
      (\<lambda>e. f (snd (fst e))) ` set (edges G)"
    unfolding relabel_nodes_def fold_add_edge_nodes nodes_add_nodes_from
    by (simp add: set_edges_view_ok [OF assms] empty_graph_def)
  ultimately show ?thesis by auto
qed

lemma acyclic_relabel:
  assumes "graph_ok G" and "acyclic (edge_rel G)" and "\<And>a b. f a = f b \<Longrightarrow> a = b"
  shows "acyclic (edge_rel (relabel_nodes f G))"
proof -
  have "wf (edge_rel G)" using assms(2) by (simp add: finite_acyclic_wf)
  then have "wf (map_prod f f ` edge_rel G)"
    by (rule wf_map_prod_image_Dom_Ran) (rule assms(3))
  then show ?thesis by (simp add: edge_rel_relabel [OF assms(1)] wf_acyclic)
qed

subsection \<open>The generated graph before the source is resolved\<close>

lemma generate_connected_dag_ok:
  assumes perm: "mset xs = mset [0..<nat n]" and n: "1 \<le> n"
  shows "\<exists>G r'. generate_connected_dag n p xs iter r = Inr (G, r') \<and> graph_ok G \<and>
           acyclic (edge_rel G) \<and> nodes G \<noteq> [] \<and> ''virtual'' \<notin> set (nodes G)"
proof -
  from perm have len: "length xs = nat n" by (metis length_upt mset_eq_length minus_nat.diff_0)
  from perm have dist: "distinct xs" by (metis distinct_upt mset_eq_imp_distinct_iff)
  from len n obtain first rest where xs: "xs = first # rest" by (cases xs) auto
  let ?G0 = "add_nodes_from xs (empty_graph :: nat digraph)"
  let ?S2 = "add_random_edges (nat n) p xs (?G0, r)"
  let ?S3 = "repair iter first ?S2"
  have ok0: "graph_ok ?G0" by (simp add: graph_ok_add_nodes_from graph_ok_empty)
  have rel0: "edge_rel ?G0 \<subseteq> forward_rel xs" by (simp add: edge_rel_def empty_graph_def)
  have "\<forall>ij \<in> set (index_pairs (nat n)). fst ij < snd ij \<and> snd ij < length xs"
    using set_index_pairs len by auto
  from add_random_edges_inv [OF this, of "(?G0, r)" p] ok0 rel0
  have ok2: "graph_ok (fst ?S2)" and rel2: "edge_rel (fst ?S2) \<subseteq> forward_rel xs"
    by (simp_all add: add_random_edges_def)
  from rel2 acyclic_forward_rel [OF dist] have ac2: "acyclic (edge_rel (fst ?S2))"
    by (rule acyclic_subset [rotated])
  from repair_inv [OF ok2 ac2] have ok3: "graph_ok (fst ?S3)" and ac3: "acyclic (edge_rel (fst ?S3))"
    by simp_all
  have "first \<in> set (nodes ?G0)" by (simp add: nodes_add_nodes_from xs)
  with nodes_add_random_edges [of "(?G0, r)" p xs "index_pairs (nat n)"]
  have "first \<in> set (nodes (fst ?S2))" by (auto simp: add_random_edges_def)
  with nodes_repair [of ?S2 iter first] have first: "first \<in> set (nodes (fst ?S3))" by auto
  let ?G = "relabel_nodes node_name (fst ?S3)"
  have gen: "generate_connected_dag n p xs iter r = Inr (?G, snd ?S3)"
    unfolding generate_connected_dag_def Let_def xs by (simp add: case_prod_beta)
  have "graph_ok ?G" by (rule graph_ok_relabel)
  moreover have "acyclic (edge_rel ?G)"
    using ok3 ac3 node_name_inj by (rule acyclic_relabel)
  moreover have "node_name first \<in> set (nodes ?G)"
    using first by (simp add: nodes_relabel [OF ok3])
  then have "nodes ?G \<noteq> []" by auto
  moreover have "''virtual'' \<notin> set (nodes ?G)"
    by (auto simp: nodes_relabel [OF ok3] node_name_def)
  ultimately show ?thesis using gen by blast
qed

subsection \<open>Resolving the source\<close>


lemma filter_singleton:
  assumes "distinct xs" and "x \<in> set xs" and "P x" and "\<forall>y \<in> set xs. P y \<longrightarrow> y = x"
  shows "filter P xs = [x]"
proof -
  have "set (filter P xs) = {y \<in> set xs. P y}" by (rule set_filter)
  also have "\<dots> = {x}" using assms(2-4) by blast
  finally have s: "set (filter P xs) = {x}" .
  have "distinct (filter P xs)" using assms(1) by (rule distinct_filter)
  then have "card (set (filter P xs)) = length (filter P xs)" by (rule distinct_card)
  with s have "length (filter P xs) = 1" by simp
  then obtain z where z: "filter P xs = [z]" by (auto simp: length_Suc_conv)
  from s show ?thesis unfolding z by simp
qed

lemma rtrancl_Range: "(a, b) \<in> r\<^sup>* \<Longrightarrow> a \<noteq> b \<Longrightarrow> b \<in> Range r"
  by (erule rtranclE) auto

lemma fst_add_virtual_edge:
  "fst (add_virtual_edge s S) = add_edge ''virtual'' s (fst (randint (snd S))) (fst S)"
  by (simp add: add_virtual_edge_def case_prod_beta)

lemma fold_add_virtual_edge:
  assumes "graph_ok (fst S)" and "acyclic (edge_rel (fst S))"
    and "''virtual'' \<notin> Range (edge_rel (fst S))" and "''virtual'' \<notin> set ss"
  shows "graph_ok (fst (fold add_virtual_edge ss S)) \<and>
         acyclic (edge_rel (fst (fold add_virtual_edge ss S))) \<and>
         edge_rel (fst (fold add_virtual_edge ss S)) = edge_rel (fst S) \<union> {''virtual''} \<times> set ss \<and>
         set (nodes (fst (fold add_virtual_edge ss S))) =
           set (nodes (fst S)) \<union> (if ss = [] then {} else {''virtual''}) \<union> set ss"
  using assms
proof (induction ss arbitrary: S)
  case Nil
  then show ?case by simp
next
  case (Cons s ss)
  obtain d where d: "fst (add_virtual_edge s S) = add_edge ''virtual'' s d (fst S)"
    using fst_add_virtual_edge by blast
  let ?S = "add_virtual_edge s S"
  have sv: "s \<noteq> ''virtual''" using Cons.prems(4) by auto
  have ok: "graph_ok (fst ?S)" using Cons.prems(1) by (simp add: d graph_ok_add_edge)
  have rel: "edge_rel (fst ?S) = insert (''virtual'', s) (edge_rel (fst S))"
    by (simp add: d edge_rel_add_edge)
  have "(s, ''virtual'') \<notin> (edge_rel (fst S))\<^sup>*"
    using rtrancl_Range [of s "''virtual''" "edge_rel (fst S)"] sv Cons.prems(3) by blast
  then have ac: "acyclic (edge_rel (fst ?S))" using Cons.prems(2) by (simp add: rel)
  have ran: "''virtual'' \<notin> Range (edge_rel (fst ?S))"
    using Cons.prems(3) sv by (simp add: rel)
  have nd: "set (nodes (fst ?S)) = insert ''virtual'' (insert s (set (nodes (fst S))))"
    by (simp add: d nodes_add_edge)
  from Cons.IH [OF ok ac ran] Cons.prems(4) show ?case
    by (auto simp: rel nd)
qed

lemma get_source_node_ok:
  assumes ok: "graph_ok G" and ac: "acyclic (edge_rel G)" and ne: "nodes G \<noteq> []"
    and nv: "''virtual'' \<notin> set (nodes G)"
    and res: "get_source_node G r = ((G', r'), src)"
  shows "single_source_dag G' src \<and> (\<forall>v \<in> set (nodes G'). (src, v) \<in> (edge_rel G')\<^sup>*)"
proof -
  let ?E = "edge_rel G"
  define ss where "ss = filter (\<lambda>n. in_degree G n = 0) (nodes G)"
  have set_ss: "set ss = {n \<in> set (nodes G). n \<notin> Range ?E}"
    by (auto simp: ss_def in_degree_zero_iff)
  have fld: "Field ?E \<subseteq> set (nodes G)" and dist: "distinct (nodes G)"
    using ok by (simp_all add: graph_ok_def)
  have root: "\<exists>s \<in> set ss. (s, v) \<in> ?E\<^sup>*" if v: "v \<in> set (nodes G)" for v
  proof -
    from dag_has_root [OF finite_edge_rel ac, of v]
    obtain s where s: "(s, v) \<in> ?E\<^sup>*" "s \<notin> Range ?E" by blast
    from rtrancl_in_nodes [OF s(1) v fld] have "s \<in> set (nodes G)" .
    with s show ?thesis unfolding set_ss by blast
  qed
  from ne obtain v0 where "v0 \<in> set (nodes G)" by (cases "nodes G") auto
  from root [OF this] obtain s0 where "s0 \<in> set ss" by blast
  then have sne: "ss \<noteq> []" by (metis empty_iff empty_set)
  have gs: "get_source_node G r =
      (if length ss = 1 then ((G, r), hd ss) else (fold add_virtual_edge ss (G, r), ''virtual''))"
    by (simp add: get_source_node_def Let_def ss_def)
  show ?thesis
  proof (cases "length ss = 1")
    case True
    with res gs have G': "G' = G" and src: "src = hd ss" by auto
    from True src have one: "ss = [src]" by (cases ss) auto
    have "(src, v) \<in> ?E\<^sup>*" if "v \<in> set (nodes G)" for v
      using root [OF that] one by auto
    with ok ac one G' show ?thesis by (simp add: single_source_dag_def ss_def)
  next
    case False
    let ?S = "fold add_virtual_edge ss (G, r)"
    from False res gs have G': "G' = fst ?S" and src: "src = ''virtual''" by auto
    have nvr: "''virtual'' \<notin> Range ?E" using nv fld by (auto simp: Field_def)
    have nvs: "''virtual'' \<notin> set ss" using nv unfolding set_ss by blast
    have "graph_ok (fst ?S) \<and> acyclic (edge_rel (fst ?S)) \<and>
        edge_rel (fst ?S) = edge_rel (fst (G, r)) \<union> {''virtual''} \<times> set ss \<and>
        set (nodes (fst ?S)) =
          set (nodes (fst (G, r))) \<union> (if ss = [] then {} else {''virtual''}) \<union> set ss"
      by (rule fold_add_virtual_edge) (use ok ac nvr nvs in simp_all)
    then have fv: "graph_ok G' \<and> acyclic (edge_rel G') \<and>
        edge_rel G' = ?E \<union> {''virtual''} \<times> set ss \<and>
        set (nodes G') = set (nodes G) \<union> (if ss = [] then {} else {''virtual''}) \<union> set ss"
      unfolding G' fst_conv .
    from fv have ok': "graph_ok G'" by blast
    from fv have ac': "acyclic (edge_rel G')" by blast
    from fv have rel': "edge_rel G' = ?E \<union> {''virtual''} \<times> set ss" by blast
    from fv have "set (nodes G') =
        set (nodes G) \<union> (if ss = [] then {} else {''virtual''}) \<union> set ss" by blast
    with sne have nd': "set (nodes G') = set (nodes G) \<union> {''virtual''} \<union> set ss"
      by (simp only: if_False)
    have reach: "(''virtual'', v) \<in> (edge_rel G')\<^sup>*" if "v \<in> set (nodes G')" for v
    proof (cases "v = ''virtual''")
      case True
      then show ?thesis by simp
    next
      case False
      with that nd' set_ss have "v \<in> set (nodes G)" by blast
      from root [OF this] obtain s where s: "s \<in> set ss" "(s, v) \<in> ?E\<^sup>*" by blast
      have "?E \<subseteq> edge_rel G'" unfolding rel' by blast
      from rtrancl_mono [OF this] s(2) have "(s, v) \<in> (edge_rel G')\<^sup>*" by blast
      moreover have "(''virtual'', s) \<in> edge_rel G'" using s(1) unfolding rel' by blast
      ultimately show ?thesis by (meson converse_rtrancl_into_rtrancl)
    qed
    have ran': "Range (edge_rel G') = Range ?E \<union> set ss"
      unfolding rel' Range_Un_eq by blast
    have "filter (\<lambda>n. in_degree G' n = 0) (nodes G') = [''virtual'']"
    proof (rule filter_singleton)
      show "distinct (nodes G')" using ok' by (simp add: graph_ok_def)
      show "''virtual'' \<in> set (nodes G')" unfolding nd' by blast
      show "in_degree G' ''virtual'' = 0"
        unfolding in_degree_zero_iff ran' using nvr nvs by blast
      show "\<forall>y \<in> set (nodes G'). in_degree G' y = 0 \<longrightarrow> y = ''virtual''"
        unfolding in_degree_zero_iff ran' nd' set_ss by blast
    qed
    with ok' ac' reach src show ?thesis by (simp add: single_source_dag_def)
  qed
qed

lemma weighted_dag_init_ok:
  assumes perm: "mset xs = mset [0..<nat n]" and n: "1 \<le> n"
  shows "\<exists>d. weighted_dag_init n p xs iter r = Inr d \<and>
           single_source_dag (graph d) (source d) \<and>
           (\<forall>v \<in> set (nodes (graph d)). (source d, v) \<in> (edge_rel (graph d))\<^sup>*) \<and>
           nodes (graph d) \<noteq> [] \<and> schema d = to_schema (graph d)"
proof -
  from generate_connected_dag_ok [OF perm n, of p iter r]
  obtain G r' where gen: "generate_connected_dag n p xs iter r = Inr (G, r')"
    and G: "graph_ok G" "acyclic (edge_rel G)" "nodes G \<noteq> []" "''virtual'' \<notin> set (nodes G)"
    by blast
  obtain G' r'' src where res: "get_source_node G r' = ((G', r''), src)"
    by (metis prod.collapse)
  from get_source_node_ok [OF G res]
  have ss: "single_source_dag G' src" and reach: "\<forall>v \<in> set (nodes G'). (src, v) \<in> (edge_rel G')\<^sup>*"
    by simp_all
  from ss have f: "filter (\<lambda>n. in_degree G' n = 0) (nodes G') = [src]"
    by (simp add: single_source_dag_def)
  have "set (filter (\<lambda>n. in_degree G' n = 0) (nodes G')) \<subseteq> set (nodes G')"
    by (rule filter_is_subset)
  with f have "src \<in> set (nodes G')" by (metis list.set_intros(1) subsetD)
  then have "nodes G' \<noteq> []" by auto
  with gen res ss reach show ?thesis
    by (simp add: weighted_dag_init_def)
qed

subsection \<open>The adjacency-list schema\<close>

lemma schema_append_triples:
  "mset (schema_triples (schema_append u x sch)) =
   mset (schema_triples sch) + {#(u, fst x, snd x)#}"
proof (induction sch)
  case Nil
  show ?case by (simp add: schema_append_def schema_triples_def case_prod_beta)
next
  case (Cons a sch)
  show ?case
  proof (cases "fst a = u")
    case True
    then show ?thesis
      by (cases a) (simp add: schema_append_def schema_triples_def case_prod_beta)
  next
    case False
    with Cons show ?thesis
      by (cases a)
        (auto simp: schema_append_def schema_triples_def case_prod_beta split: option.splits)
  qed
qed

lemma schema_append_keys:
  "fst ` set (schema_append u x sch) = insert u (fst ` set sch)"
  using AList.dom_update [of u _ sch]
  by (auto simp: schema_append_def split: option.splits dest: map_of_SomeD)

lemma schema_append_distinct:
  "distinct (map fst sch) \<Longrightarrow> distinct (map fst (schema_append u x sch))"
  by (auto simp: schema_append_def AList.distinct_update map_of_eq_None_iff split: option.splits)

lemma fold_schema_append_triples:
  "mset (schema_triples (fold (\<lambda>e. schema_append (fst (fst e)) (snd (fst e), snd e)) es sch)) =
   mset (schema_triples sch) + mset (map (\<lambda>e. (fst (fst e), snd (fst e), snd e)) es)"
  by (induction es arbitrary: sch) (simp_all add: schema_append_triples)

lemma fold_schema_append_keys:
  "fst ` set (fold (\<lambda>e. schema_append (fst (fst e)) (snd (fst e), snd e)) es sch) =
   fst ` set sch \<union> (\<lambda>e. fst (fst e)) ` set es"
  by (induction es arbitrary: sch) (simp_all add: schema_append_keys)

lemma fold_schema_append_distinct:
  "distinct (map fst sch) \<Longrightarrow>
   distinct (map fst (fold (\<lambda>e. schema_append (fst (fst e)) (snd (fst e), snd e)) es sch))"
  by (induction es arbitrary: sch) (simp_all add: schema_append_distinct)

lemma to_schema_triples:
  "mset (schema_triples (to_schema G)) =
   mset (map (\<lambda>e. (fst (fst e), snd (fst e), snd e)) (edges_view G))"
  unfolding to_schema_def fold_schema_append_triples by (simp add: schema_triples_def)

lemma to_schema_keys: "fst ` set (to_schema G) = (\<lambda>e. fst (fst e)) ` set (edges_view G)"
  unfolding to_schema_def fold_schema_append_keys by simp

lemma to_schema_distinct: "distinct (map fst (to_schema G))"
  by (simp add: to_schema_def fold_schema_append_distinct)

lemma edges_view_filter:
  "edges_view G = concat (map (\<lambda>u. filter (\<lambda>e. fst (fst e) = u) (edges G)) (nodes G))"
proof -
  have "map (\<lambda>(v, d). ((u, v), d)) (out_edges G u) = filter (\<lambda>e. fst (fst e) = u) (edges G)"
    for u
    unfolding out_edges_def map_map by (rule map_idI) auto
  then show ?thesis by (simp add: edges_view_def)
qed

lemma mset_concat_filter:
  "distinct ns \<Longrightarrow>
   mset (concat (map (\<lambda>u. filter (\<lambda>e. f e = u) es) ns)) = mset (filter (\<lambda>e. f e \<in> set ns) es)"
proof (induction ns)
  case Nil
  show ?case by simp
next
  case (Cons a ns)
  then have a: "a \<notin> set ns" by simp
  have "mset (filter (\<lambda>e. f e = a) es) + mset (filter (\<lambda>e. f e \<in> set ns) es) =
        mset (filter (\<lambda>e. f e \<in> set (a # ns)) es)"
    using a by (induction es) auto
  with Cons show ?case by simp
qed

lemma mset_edges_view: "graph_ok G \<Longrightarrow> mset (edges_view G) = mset (edges G)"
proof -
  assume ok: "graph_ok G"
  then have "\<forall>e \<in> set (edges G). fst (fst e) \<in> set (nodes G)"
    unfolding graph_ok_def edge_rel_def Field_def
    by (metis (no_types, lifting) Domain.DomainI UnCI image_eqI list.set_map prod.collapse subsetD)
  then have "filter (\<lambda>e. fst (fst e) \<in> set (nodes G)) (edges G) = edges G"
    by (simp add: filter_id_conv)
  moreover from ok have "distinct (nodes G)" by (simp add: graph_ok_def)
  ultimately show ?thesis
    by (simp add: edges_view_filter mset_concat_filter)
qed

lemma schema_triples_ok:
  assumes "graph_ok G"
  shows "distinct (schema_triples (to_schema G))"
    and "set (schema_triples (to_schema G)) = graph_triples G"
proof -
  let ?t = "\<lambda>e :: (string \<times> string) \<times> int. (fst (fst e), snd (fst e), snd e)"
  have m: "mset (schema_triples (to_schema G)) = mset (map ?t (edges G))"
    by (simp add: to_schema_triples mset_edges_view [OF assms])
  from assms have "distinct (map fst (edges G))" by (simp add: graph_ok_def)
  then have "distinct (edges G)" by (rule distinct_map [THEN iffD1, THEN conjunct1])
  moreover have "inj_on ?t (set (edges G))" by (auto simp: inj_on_def prod_eq_iff)
  ultimately have "distinct (map ?t (edges G))"
    by (simp add: distinct_map)
  then show "distinct (schema_triples (to_schema G))"
    by (simp only: mset_eq_imp_distinct_iff [OF m])
  from m have "set (schema_triples (to_schema G)) = set (map ?t (edges G))"
    by (rule mset_eq_setD)
  then show "set (schema_triples (to_schema G)) = graph_triples G"
    by (simp add: graph_triples_def)
qed

lemma to_schema_keys_ok:
  "fst ` set (to_schema G) = {u \<in> set (nodes G). 0 < out_degree G u}"
proof -
  have "0 < out_degree G u \<longleftrightarrow> (\<exists>e \<in> set (edges G). fst (fst e) = u)" for u
    by (auto simp: out_degree_def successors_def out_edges_def filter_empty_conv)
  then show ?thesis
    unfolding to_schema_keys set_edges_view by auto
qed

subsection \<open>Every graph state of step 3\<close>

lemma trials_undone_Cons:
  "is_directed_acyclic_graph G \<Longrightarrow> trials_undone Gs \<Longrightarrow> trials_undone (G # Gs)"
  by (cases Gs) simp_all

lemma trials_undone_append:
  "trials_undone xs \<Longrightarrow> trials_undone ys \<Longrightarrow> trials_undone (xs @ ys)"
proof (induction xs rule: trials_undone.induct)
  case 1
  then show ?case by simp
next
  case (2 G)
  then show ?case by (simp add: trials_undone_Cons)
next
  case (3 G G' Gs)
  then show ?case by simp
qed

lemma trials_undone_nth:
  "trials_undone xs \<Longrightarrow> i < length xs \<Longrightarrow> \<not> is_directed_acyclic_graph (xs ! i) \<Longrightarrow>
   Suc i < length xs \<and> is_directed_acyclic_graph (xs ! Suc i) \<and>
   (\<exists>u v. xs ! Suc i = remove_edge u v (xs ! i))"
proof (induction xs arbitrary: i rule: trials_undone.induct)
  case 1
  then show ?case by simp
next
  case (2 G)
  then show ?case by simp
next
  case (3 G G' Gs)
  show ?case
  proof (cases i)
    case 0
    with "3.prems" show ?thesis by auto
  next
    case (Suc j)
    with "3.prems" have "trials_undone (G' # Gs)" "j < length (G' # Gs)"
      "\<not> is_directed_acyclic_graph ((G' # Gs) ! j)" by simp_all
    from "3.IH" [OF this] Suc show ?thesis by simp
  qed
qed

lemma splice_states_undone:
  assumes "acyclic (edge_rel G)"
  shows "trials_undone (splice_states node ts G r)"
  using assms
proof (induction ts arbitrary: G r)
  case Nil
  show ?case by simp
next
  case (Cons t ts)
  obtain d1 r1 where d1: "randint r = (d1, r1)" by (cases "randint r")
  obtain d2 r2 where d2: "randint r1 = (d2, r2)" by (cases "randint r1")
  let ?G1 = "add_edge node t d1 G"
  let ?G2 = "remove_edge node t ?G1"
  let ?G3 = "add_edge t node d2 ?G2"
  let ?G4 = "remove_edge t node ?G3"
  have "edge_rel ?G2 \<subseteq> edge_rel G" by (auto simp: edge_rel_add_edge edge_rel_remove_edge)
  with Cons.prems have a2: "is_directed_acyclic_graph ?G2"
    unfolding is_directed_acyclic_graph_def by (rule acyclic_subset)
  have "edge_rel ?G4 \<subseteq> edge_rel G" by (auto simp: edge_rel_add_edge edge_rel_remove_edge)
  with Cons.prems have a4: "acyclic (edge_rel ?G4)" by (rule acyclic_subset)
  then have a4': "is_directed_acyclic_graph ?G4" by (simp add: is_directed_acyclic_graph_def)
  from Cons.IH [OF a4, of r2] a4'
  have rest: "trials_undone (?G4 # splice_states node ts ?G4 r2)"
    by (rule trials_undone_Cons [rotated])
  have r2': "\<exists>u v. ?G2 = remove_edge u v ?G1" by blast
  have r4': "\<exists>u v. ?G4 = remove_edge u v ?G3" by blast
  show ?case
  proof (cases "is_directed_acyclic_graph ?G1")
    case True
    then show ?thesis by (simp add: d1 Let_def)
  next
    case g1: False
    show ?thesis
    proof (cases "is_directed_acyclic_graph ?G3")
      case True
      with g1 a2 r2' show ?thesis by (simp add: d1 d2 Let_def)
    next
      case False
      with g1 a2 a4' r2' r4' rest show ?thesis by (simp add: d1 d2 Let_def)
    qed
  qed
qed

lemma repair_loop_states_undone:
  assumes "graph_ok (fst S)" and "acyclic (edge_rel (fst S))"
  shows "trials_undone (repair_loop_states iter ns S)"
  using assms
proof (induction ns arbitrary: S)
  case Nil
  show ?case by simp
next
  case (Cons node ns)
  obtain G reachable r where S: "S = (G, reachable, r)" by (cases S)
  with Cons.prems have "acyclic (edge_rel G)" by simp
  then have a: "trials_undone (splice_states node (iter reachable) G r)"
    by (rule splice_states_undone)
  from repair_node_inv [OF Cons.prems, of iter node]
  have "trials_undone (repair_loop_states iter ns (repair_node iter node S))"
    by (intro Cons.IH) simp_all
  with a show ?case by (simp add: S trials_undone_append)
qed

lemma step3_states_undone:
  assumes "mset shuffled = mset [0..<nat n]"
  shows "trials_undone (step3_states n p shuffled iter r)"
proof (cases shuffled)
  case Nil
  then show ?thesis by (simp add: step3_states_def)
next
  case (Cons first rest)
  let ?G0 = "add_nodes_from shuffled (empty_graph :: nat digraph)"
  let ?S2 = "add_random_edges (nat n) p shuffled (?G0, r)"
  from assms have len: "length shuffled = nat n"
    by (metis length_upt mset_eq_length minus_nat.diff_0)
  from assms have dist: "distinct shuffled" by (metis distinct_upt mset_eq_imp_distinct_iff)
  have ok0: "graph_ok (fst (?G0, r))" by (simp add: graph_ok_add_nodes_from graph_ok_empty)
  have rel0: "edge_rel (fst (?G0, r)) \<subseteq> forward_rel shuffled"
    by (simp add: edge_rel_def empty_graph_def)
  have "\<forall>ij \<in> set (index_pairs (nat n)). fst ij < snd ij \<and> snd ij < length shuffled"
    using set_index_pairs len by auto
  from add_random_edges_inv [OF this ok0 rel0, of p]
  have ok2: "graph_ok (fst ?S2)" and "edge_rel (fst ?S2) \<subseteq> forward_rel shuffled"
    by (simp_all add: add_random_edges_def)
  with acyclic_forward_rel [OF dist] have ac2: "acyclic (edge_rel (fst ?S2))"
    by (meson acyclic_subset)
  have "trials_undone (repair_states iter first ?S2)"
    unfolding repair_states_def Let_def
    by (rule repair_loop_states_undone) (simp_all add: ok2 ac2)
  then show ?thesis by (simp add: step3_states_def Let_def Cons [symmetric]) (simp add: Cons)
qed

subsection \<open>Predecessors and successors of a well-formed graph\<close>

lemma set_predecessors: "set (predecessors G v) = {u. (u, v) \<in> edge_rel G}"
  by (force simp: predecessors_def in_edges_def edge_rel_def image_iff)

lemma set_successors: "set (successors G u) = {v. (u, v) \<in> edge_rel G}"
  by (force simp: successors_def out_edges_def edge_rel_def image_iff)

lemma distinct_successors:
  assumes "distinct (map fst (edges G))"
  shows "distinct (successors G u)"
proof -
  have "successors G u = map (\<lambda>e. snd (fst e)) (filter (\<lambda>e. fst (fst e) = u) (edges G))"
    by (simp add: successors_def out_edges_def comp_def)
  moreover have "distinct (map fst (filter (\<lambda>e. fst (fst e) = u) (edges G)))"
    using assms by (rule distinct_map_filter)
  then have "distinct (map (\<lambda>e. snd (fst e)) (filter (\<lambda>e. fst (fst e) = u) (edges G)))"
    by (auto simp: distinct_map inj_on_def prod_eq_iff)
  ultimately show ?thesis by simp
qed

lemma distinct_predecessors:
  assumes "distinct (map fst (edges G))"
  shows "distinct (predecessors G v)"
proof -
  have "predecessors G v = map (\<lambda>e. fst (fst e)) (filter (\<lambda>e. snd (fst e) = v) (edges G))"
    by (simp add: predecessors_def in_edges_def comp_def)
  moreover have "distinct (map fst (filter (\<lambda>e. snd (fst e) = v) (edges G)))"
    using assms by (rule distinct_map_filter)
  then have "distinct (map (\<lambda>e. fst (fst e)) (filter (\<lambda>e. snd (fst e) = v) (edges G)))"
    by (auto simp: distinct_map inj_on_def prod_eq_iff)
  ultimately show ?thesis by simp
qed

lemma in_degree_card:
  assumes "distinct (map fst (edges G))"
  shows "in_degree G v = card {u. (u, v) \<in> edge_rel G}"
  using distinct_card [OF distinct_predecessors [OF assms, of v]]
  by (simp add: in_degree_def set_predecessors)

subsection \<open>The loop over the successors\<close>

lemma release_ok:
  assumes "distinct ss" and "set ss \<subseteq> fst ` set (in_degrees st)"
  shows "\<exists>st'. release result ss st = Inr st' \<and>
           results st' = results st \<and> timings st' = timings st \<and> calls st' = calls st \<and>
           outcomes st' = outcomes st \<and> active_tasks st' = active_tasks st \<and>
           max_parallelism st' = max_parallelism st \<and>
           wall_start_time st' = wall_start_time st \<and> wall_end_time st' = wall_end_time st \<and>
           map fst (in_degrees st') = map fst (in_degrees st) \<and>
           (\<forall>v. map_of (in_degrees st') v =
                (if v \<in> set ss then map_option (\<lambda>k. k - 1) (map_of (in_degrees st) v)
                 else map_of (in_degrees st) v)) \<and>
           (\<forall>v. child_inputs st' v =
                (if v \<in> set ss then child_inputs st v @ [result] else child_inputs st v)) \<and>
           tasks st' = tasks st @ map Created (filter (\<lambda>s. map_of (in_degrees st) s = Some 1) ss)"
  using assms
proof (induction ss arbitrary: st)
  case Nil
  show ?case by simp
next
  case (Cons succ ss)
  from Cons.prems(2) have "succ \<in> fst ` set (in_degrees st)" by simp
  then obtain k where k: "map_of (in_degrees st) succ = Some k"
    by (metis domD dom_map_of_conv_image_fst)
  define st1 where "st1 = st\<lparr>in_degrees := AList.update succ (k - 1) (in_degrees st),
      child_inputs := (child_inputs st)(succ := child_inputs st succ @ [result])\<rparr>"
  define st2 where "st2 = (if k - 1 = 0 then st1\<lparr>tasks := tasks st1 @ [Created succ]\<rparr> else st1)"
  have rel: "release result (succ # ss) st = release result ss st2"
    by (simp add: k st1_def st2_def Let_def)
  have keys: "map fst (in_degrees st2) = map fst (in_degrees st)"
    using \<open>succ \<in> fst ` set (in_degrees st)\<close>
    by (simp add: st2_def st1_def AList.update_keys)
  have look: "map_of (in_degrees st2) v = (if v = succ then Some (k - 1) else map_of (in_degrees st) v)"
    for v
    by (simp add: st2_def st1_def AList.update_conv')
  have ci: "child_inputs st2 v =
      (if v = succ then child_inputs st v @ [result] else child_inputs st v)" for v
    by (simp add: st2_def st1_def)
  have tk: "tasks st2 = tasks st @ (if k = 1 then [Created succ] else [])"
    by (simp add: st2_def st1_def)
  have other: "results st2 = results st" "timings st2 = timings st" "calls st2 = calls st"
    "outcomes st2 = outcomes st" "active_tasks st2 = active_tasks st"
    "max_parallelism st2 = max_parallelism st" "wall_start_time st2 = wall_start_time st"
    "wall_end_time st2 = wall_end_time st"
    by (simp_all add: st2_def st1_def)
  from Cons.prems have d: "distinct ss" and sn: "succ \<notin> set ss" by simp_all
  from Cons.prems(2) keys have sub: "set ss \<subseteq> fst ` set (in_degrees st2)"
    by (metis (no_types, lifting) list.set_map set_subset_Cons subset_trans)
  from Cons.IH [OF d sub] obtain st' where st': "release result ss st2 = Inr st'"
    "results st' = results st2" "timings st' = timings st2" "calls st' = calls st2"
    "outcomes st' = outcomes st2" "active_tasks st' = active_tasks st2"
    "max_parallelism st' = max_parallelism st2"
    "wall_start_time st' = wall_start_time st2" "wall_end_time st' = wall_end_time st2"
    "map fst (in_degrees st') = map fst (in_degrees st2)"
    "\<forall>v. map_of (in_degrees st') v =
        (if v \<in> set ss then map_option (\<lambda>k. k - 1) (map_of (in_degrees st2) v)
         else map_of (in_degrees st2) v)"
    "\<forall>v. child_inputs st' v =
        (if v \<in> set ss then child_inputs st2 v @ [result] else child_inputs st2 v)"
    "tasks st' = tasks st2 @ map Created (filter (\<lambda>s. map_of (in_degrees st2) s = Some 1) ss)"
    by blast
  have f: "filter (\<lambda>s. map_of (in_degrees st2) s = Some 1) ss =
      filter (\<lambda>s. map_of (in_degrees st) s = Some 1) ss"
    using sn by (intro filter_cong refl) (auto simp: look)
  have t: "tasks st' = tasks st @
      map Created (filter (\<lambda>s. map_of (in_degrees st) s = Some 1) (succ # ss))"
    by (simp add: st'(13) f tk k)
  have l: "\<forall>v. map_of (in_degrees st') v =
      (if v \<in> set (succ # ss) then map_option (\<lambda>k. k - 1) (map_of (in_degrees st) v)
       else map_of (in_degrees st) v)"
    using sn by (auto simp: st'(11) look k)
  have c: "\<forall>v. child_inputs st' v =
      (if v \<in> set (succ # ss) then child_inputs st v @ [result] else child_inputs st v)"
    using sn by (auto simp: st'(12) ci)
  show ?case
    unfolding rel using st'(1-10) other keys t l c by simp
qed

subsection \<open>A task that begins\<close>

lemma finite_preds [simp]: "finite (preds G v)"
proof -
  have "preds G v \<subseteq> Domain (edge_rel G)" by (auto simp: preds_def)
  then show ?thesis by (rule finite_subset) (simp add: finite_Domain)
qed

lemma tasks_bound:
  assumes "sched_inv G st"
  shows "length (tasks st) \<le> card (set (nodes G) - finished st)"
proof -
  from assms have d: "distinct (map task_node (tasks st))"
    and dj: "task_node ` set (tasks st) \<inter> finished st = {}"
    and st: "finished st \<union> task_node ` set (tasks st) =
      {v \<in> set (nodes G). preds G v \<subseteq> finished st}"
    by (simp_all add: sched_inv_def)
  from st have "task_node ` set (tasks st) \<subseteq> set (nodes G)" by blast
  with dj have sub: "task_node ` set (tasks st) \<subseteq> set (nodes G) - finished st" by blast
  have "length (tasks st) = card (set (map task_node (tasks st)))"
    using distinct_card [OF d] by simp
  also have "\<dots> \<le> card (set (nodes G) - finished st)"
    using sub by (intro card_mono) simp_all
  finally show ?thesis .
qed

lemma begin_task_inv:
  assumes si: "sched_inv G st" and li: "log_inv G st"
    and tk: "tasks st = pre @ Created node # post"
  shows "\<exists>st'. begin_task G node now (st\<lparr>tasks := pre @ post\<rparr>) = Inr st' \<and>
           sched_inv G st' \<and> log_inv G st' \<and> remaining G st' < remaining G st \<and>
           results st' = results st \<and> in_degrees st' = in_degrees st \<and>
           child_inputs st' = child_inputs st \<and>
           tasks st' = pre @ post @ [Awaiting node now]"
proof -
  let ?F = "finished st"
  from si have d: "distinct (map task_node (tasks st))"
    and dj: "task_node ` set (tasks st) \<inter> ?F = {}"
    and sd: "?F \<union> task_node ` set (tasks st) = {v \<in> set (nodes G). preds G v \<subseteq> ?F}"
    by (simp_all add: sched_inv_def)
  have nt: "node \<in> task_node ` set (tasks st)" by (force simp: tk)
  with sd have nn: "node \<in> set (nodes G)" by blast
  from nt dj have nF: "node \<notin> ?F" by blast
  from d have nrest: "node \<notin> task_node ` set (pre @ post)" by (auto simp: tk)
  define st' where "st' = st\<lparr>tasks := pre @ post @ [Awaiting node now],
      active_tasks := active_tasks st + 1,
      max_parallelism := max (max_parallelism st) (active_tasks st + 1),
      calls := calls st @ [(node, [], sum_list (map snd (in_edges G node)))]\<rparr>"
  have b: "begin_task G node now (st\<lparr>tasks := pre @ post\<rparr>) = Inr st'"
    using nn by (simp add: begin_task_def Let_def st'_def)
  have F': "finished st' = ?F" by (simp add: finished_def st'_def)
  have tn: "task_node ` set (tasks st') = task_node ` set (tasks st)"
    by (auto simp: st'_def tk)
  have d': "distinct (map task_node (tasks st'))"
    using d by (auto simp: st'_def tk)
  have si': "sched_inv G st'"
    using si unfolding sched_inv_def F' tn using d' by (simp add: st'_def)
  have "{t \<in> set (tasks st'). is_awaiting t} =
      insert (Awaiting node now) {t \<in> set (tasks st). is_awaiting t}"
    by (auto simp: st'_def tk)
  then have aw: "task_node ` {t \<in> set (tasks st'). is_awaiting t} =
      insert node (task_node ` {t \<in> set (tasks st). is_awaiting t})"
    by simp
  from li have c: "set (map fst (calls st)) = ?F \<union> task_node ` {t \<in> set (tasks st). is_awaiting t}"
    by (simp add: log_inv_def)
  have "task_node ` {t \<in> set (tasks st). is_awaiting t} \<subseteq> task_node ` set (pre @ post)"
    by (auto simp: tk)
  with nrest have "node \<notin> task_node ` {t \<in> set (tasks st). is_awaiting t}" by blast
  with nF c have nc: "node \<notin> set (map fst (calls st))" by blast
  have li': "log_inv G st'"
    unfolding log_inv_def F' aw
  proof (intro conjI)
    show "map fst (timings st') = map fst (results st')"
      using li by (simp add: log_inv_def st'_def)
    show "distinct (map fst (calls st'))"
      using li nc by (simp add: log_inv_def st'_def)
    show "set (map fst (calls st')) =
        ?F \<union> insert node (task_node ` {t \<in> set (tasks st). is_awaiting t})"
      using c by (simp add: st'_def)
    show "\<forall>c \<in> set (calls st'). c = (fst c, [], sum_list (map snd (in_edges G (fst c))))"
      using li by (simp add: log_inv_def st'_def)
    show "map fst (outcomes st') = map fst (results st')"
      using li by (simp add: log_inv_def st'_def)
    show "\<forall>no \<in> set (outcomes st'). map_of (results st') (fst no) = Some (result_of (snd no))"
      using li by (simp add: log_inv_def st'_def)
  qed
  have la: "length (filter is_awaiting (tasks st')) = Suc (length (filter is_awaiting (tasks st)))"
    by (simp add: st'_def tk)
  have "length (filter is_awaiting (tasks st)) < length (tasks st)"
    by (simp add: tk) (metis le_imp_less_Suc length_filter_le add_Suc_right length_append
        filter_append)
  with tasks_bound [OF si] have "Suc (length (filter is_awaiting (tasks st))) \<le>
      card (set (nodes G) - ?F)" by simp
  then have rem: "remaining G st' < remaining G st"
    unfolding remaining_def F' la by simp
  show ?thesis
    using b si' li' rem by (simp add: st'_def)
qed

subsection \<open>A task that finishes\<close>

lemma update_absent: "k \<notin> fst ` set al \<Longrightarrow> AList.update k v al = al @ [(k, v)]"
  by (induction al) auto

lemma subset_singleton_eq: "x \<in> A \<Longrightarrow> A \<subseteq> {x} \<Longrightarrow> A = {x}"
  by auto

lemma finish_task_inv:
  assumes ok: "graph_ok G" and ac: "acyclic (edge_rel G)"
    and si: "sched_inv G st" and li: "log_inv G st"
    and tk: "tasks st = pre @ Awaiting node start # post"
  shows "\<exists>st'. finish_task G node start out now (st\<lparr>tasks := pre @ post\<rparr>) = Inr st' \<and>
           sched_inv G st' \<and> log_inv G st' \<and> remaining G st' < remaining G st \<and>
           results st' = results st @ [(node, result_of out)] \<and>
           timings st' = timings st @ [(node, now - start)] \<and>
           calls st' = calls st \<and>
           (\<forall>v. map_of (in_degrees st') v =
                (if v \<in> set (successors G node)
                 then map_option (\<lambda>k. k - 1) (map_of (in_degrees st) v)
                 else map_of (in_degrees st) v)) \<and>
           (\<forall>v. child_inputs st' v =
                (if v \<in> set (successors G node) then child_inputs st v @ [result_of out]
                 else child_inputs st v)) \<and>
           tasks st' = pre @ post @
             map Created (filter (\<lambda>s. map_of (in_degrees st) s = Some 1) (successors G node))"
proof -
  let ?F = "finished st"
  let ?E = "edge_rel G"
  let ?ss = "successors G node"
  let ?r = "result_of out"
  let ?new = "filter (\<lambda>s. map_of (in_degrees st) s = Some 1) ?ss"
  from si have dr: "distinct (map fst (results st))"
    and d: "distinct (map task_node (tasks st))"
    and dj: "task_node ` set (tasks st) \<inter> ?F = {}"
    and sd: "?F \<union> task_node ` set (tasks st) = {v \<in> set (nodes G). preds G v \<subseteq> ?F}"
    and keys: "map fst (in_degrees st) = nodes G"
    and cnt: "\<forall>v \<in> set (nodes G). map_of (in_degrees st) v = Some (int (card (preds G v - ?F)))"
    by (simp_all add: sched_inv_def)
  from li have tm: "map fst (timings st) = map fst (results st)"
    and dc: "distinct (map fst (calls st))"
    and cs: "set (map fst (calls st)) = ?F \<union> task_node ` {t \<in> set (tasks st). is_awaiting t}"
    and ca: "\<forall>c \<in> set (calls st). c = (fst c, [], sum_list (map snd (in_edges G (fst c))))"
    and om: "map fst (outcomes st) = map fst (results st)"
    and ov: "\<forall>no \<in> set (outcomes st). map_of (results st) (fst no) = Some (result_of (snd no))"
    by (simp_all add: log_inv_def)
  from ok have fld: "Field ?E \<subseteq> set (nodes G)" and de: "distinct (map fst (edges G))"
    by (simp_all add: graph_ok_def)
  have nt: "node \<in> task_node ` set (tasks st)" by (force simp: tk)
  with sd have nn: "node \<in> set (nodes G)" by blast
  from nt dj have nF: "node \<notin> ?F" by blast
  from d have nrest: "node \<notin> task_node ` set (pre @ post)" by (auto simp: tk)
  have rest: "task_node ` set (tasks st) = insert node (task_node ` set (pre @ post))"
    by (auto simp: tk)
  have dss: "distinct ?ss" using de by (rule distinct_successors)
  have sss: "set ?ss = {v. (node, v) \<in> ?E}" by (rule set_successors)
  have ssn: "set ?ss \<subseteq> set (nodes G)" using fld by (auto simp: sss Field_def)
  have self: "node \<notin> set ?ss"
    using ac by (auto simp: sss acyclic_def)

  define st1 where "st1 = st\<lparr>tasks := pre @ post,
      results := AList.update node ?r (results st),
      timings := AList.update node (now - start) (timings st),
      outcomes := outcomes st @ [(node, out)],
      active_tasks := active_tasks st - 1\<rparr>"
  have fin: "finish_task G node start out now (st\<lparr>tasks := pre @ post\<rparr>) = release ?r ?ss st1"
    by (simp add: finish_task_def Let_def st1_def)
  have nk: "node \<notin> fst ` set (results st)" using nF by (simp add: finished_def)
  then have r1: "results st1 = results st @ [(node, ?r)]"
    by (simp add: st1_def update_absent)
  from nk tm have "node \<notin> fst ` set (timings st)" by (metis list.set_map)
  then have t1: "timings st1 = timings st @ [(node, now - start)]"
    by (simp add: st1_def update_absent)
  have sub1: "set ?ss \<subseteq> fst ` set (in_degrees st1)"
    using ssn keys by (simp add: st1_def) (metis list.set_map)
  from release_ok [OF dss sub1, of ?r] obtain st' where st': "release ?r ?ss st1 = Inr st'"
    "results st' = results st1" "timings st' = timings st1" "calls st' = calls st1"
    "outcomes st' = outcomes st1"
    "map fst (in_degrees st') = map fst (in_degrees st1)"
    "\<forall>v. map_of (in_degrees st') v =
        (if v \<in> set ?ss then map_option (\<lambda>k. k - 1) (map_of (in_degrees st1) v)
         else map_of (in_degrees st1) v)"
    "\<forall>v. child_inputs st' v =
        (if v \<in> set ?ss then child_inputs st1 v @ [?r] else child_inputs st1 v)"
    "tasks st' = tasks st1 @ map Created (filter (\<lambda>s. map_of (in_degrees st1) s = Some 1) ?ss)"
    by blast
  have res': "results st' = results st @ [(node, ?r)]" by (simp add: st'(2) r1)
  have tim': "timings st' = timings st @ [(node, now - start)]" by (simp add: st'(3) t1)
  have cal': "calls st' = calls st" by (simp add: st'(4) st1_def)
  have out': "outcomes st' = outcomes st @ [(node, out)]" by (simp add: st'(5) st1_def)
  have key': "map fst (in_degrees st') = nodes G" by (simp add: st'(6) st1_def keys)
  have look': "\<forall>v. map_of (in_degrees st') v =
      (if v \<in> set ?ss then map_option (\<lambda>k. k - 1) (map_of (in_degrees st) v)
       else map_of (in_degrees st) v)"
    using st'(7) by (simp add: st1_def)
  have ci': "\<forall>v. child_inputs st' v =
      (if v \<in> set ?ss then child_inputs st v @ [?r] else child_inputs st v)"
    using st'(8) by (simp add: st1_def)
  have tk': "tasks st' = pre @ post @ map Created ?new"
    using st'(9) by (simp add: st1_def)
  have F': "finished st' = insert node ?F"
    by (auto simp: finished_def res')

  have in_pred: "node \<in> preds G s - ?F" if "s \<in> set ?ss" for s
    using that nF by (simp add: sss preds_def)
  have new_iff: "map_of (in_degrees st) s = Some 1 \<longleftrightarrow> preds G s \<subseteq> insert node ?F"
    if s: "s \<in> set ?ss" for s
  proof -
    from s ssn cnt have m: "map_of (in_degrees st) s = Some (int (card (preds G s - ?F)))"
      by blast
    have fn: "finite (preds G s - ?F)" by simp
    show ?thesis
    proof
      assume "map_of (in_degrees st) s = Some 1"
      with m have "card (preds G s - ?F) = 1" by simp
      then obtain x where x: "preds G s - ?F = {x}" by (rule card_1_singletonE)
      from in_pred [OF s] have "node \<in> {x}" by (simp only: x)
      then have "x = node" by simp
      with x have "preds G s - ?F = {node}" by simp
      then show "preds G s \<subseteq> insert node ?F" by blast
    next
      assume "preds G s \<subseteq> insert node ?F"
      then have "preds G s - ?F \<subseteq> {node}" by blast
      with in_pred [OF s] have "preds G s - ?F = {node}" by (rule subset_singleton_eq)
      then have "card (preds G s - ?F) = 1" by simp
      with m show "map_of (in_degrees st) s = Some 1" by simp
    qed
  qed
  have set_new: "set ?new = {s \<in> set ?ss. preds G s \<subseteq> insert node ?F}"
    using new_iff by auto
  have new_fresh: "s \<notin> ?F \<union> task_node ` set (tasks st)" if "s \<in> set ?new" for s
  proof -
    from that have "s \<in> set ?ss" by simp
    from in_pred [OF this] have "\<not> preds G s \<subseteq> ?F" by blast
    with sd show ?thesis by blast
  qed
  have tn': "task_node ` set (tasks st') = task_node ` set (pre @ post) \<union> set ?new"
    by (auto simp: tk' image_Un image_image)

  have s1: "distinct (map fst (results st'))"
    using dr nk by (simp add: res')
  have s2: "distinct (map task_node (tasks st'))"
  proof -
    have "distinct (map task_node (pre @ post))" using d by (simp add: tk)
    moreover have "distinct (map task_node (map Created ?new))"
      using dss by (simp add: comp_def)
    moreover have "task_node ` set (pre @ post) \<inter> set ?new = {}"
      using new_fresh rest by blast
    ultimately show ?thesis
      by (simp add: tk' image_Un image_image Int_Un_distrib2) blast
  qed
  have s3: "task_node ` set (tasks st') \<inter> finished st' = {}"
  proof -
    have "set ?new \<inter> insert node ?F = {}" using new_fresh self by auto
    moreover have "task_node ` set (pre @ post) \<inter> insert node ?F = {}"
      using dj nrest rest by blast
    ultimately show ?thesis unfolding tn' F' by blast
  qed
  have s4: "finished st' \<union> task_node ` set (tasks st') =
      {v \<in> set (nodes G). preds G v \<subseteq> finished st'}"
  proof -
    have "insert node ?F \<union> (task_node ` set (pre @ post) \<union> set ?new) =
        (?F \<union> task_node ` set (tasks st)) \<union> set ?new"
      unfolding rest by blast
    also have "\<dots> = {v \<in> set (nodes G). preds G v \<subseteq> ?F} \<union>
        {s \<in> set ?ss. preds G s \<subseteq> insert node ?F}"
      by (simp only: sd set_new)
    also have "\<dots> = {v \<in> set (nodes G). preds G v \<subseteq> insert node ?F}"
    proof (intro equalityI subsetI)
      fix v assume "v \<in> {v \<in> set (nodes G). preds G v \<subseteq> ?F} \<union>
          {s \<in> set ?ss. preds G s \<subseteq> insert node ?F}"
      with ssn show "v \<in> {v \<in> set (nodes G). preds G v \<subseteq> insert node ?F}" by blast
    next
      fix v assume v: "v \<in> {v \<in> set (nodes G). preds G v \<subseteq> insert node ?F}"
      show "v \<in> {v \<in> set (nodes G). preds G v \<subseteq> ?F} \<union>
          {s \<in> set ?ss. preds G s \<subseteq> insert node ?F}"
      proof (cases "node \<in> preds G v")
        case True
        then have "v \<in> set ?ss" by (simp add: sss preds_def)
        with v show ?thesis by blast
      next
        case False
        with v show ?thesis by blast
      qed
    qed
    finally show ?thesis unfolding F' tn' .
  qed
  have s6: "\<forall>v \<in> set (nodes G).
      map_of (in_degrees st') v = Some (int (card (preds G v - finished st')))"
  proof
    fix v assume v: "v \<in> set (nodes G)"
    with cnt have m: "map_of (in_degrees st) v = Some (int (card (preds G v - ?F)))" by blast
    have eq: "preds G v - insert node ?F = (preds G v - ?F) - {node}" by blast
    show "map_of (in_degrees st') v = Some (int (card (preds G v - finished st')))"
    proof (cases "v \<in> set ?ss")
      case True
      from in_pred [OF True] have "card (preds G v - ?F - {node}) = card (preds G v - ?F) - 1"
        and "0 < card (preds G v - ?F)"
        by (simp_all add: card_gt_0_iff) blast
      then have "int (card (preds G v - insert node ?F)) = int (card (preds G v - ?F)) - 1"
        unfolding eq by simp
      with True m look' show ?thesis unfolding F' by simp
    next
      case False
      then have "node \<notin> preds G v" by (simp add: sss preds_def)
      then have "preds G v - insert node ?F = preds G v - ?F" by blast
      with False m look' show ?thesis unfolding F' by simp
    qed
  qed
  have si': "sched_inv G st'"
    unfolding sched_inv_def by (intro conjI s1 s2 s3 s4 key' s6)

  have aw': "{t \<in> set (tasks st'). is_awaiting t} =
      {t \<in> set (tasks st). is_awaiting t} - {Awaiting node start}"
  proof -
    have "Awaiting node start \<notin> set (pre @ post)"
      using nrest by force
    then show ?thesis by (auto simp: tk' tk)
  qed
  have l3: "set (map fst (calls st')) =
      finished st' \<union> task_node ` {t \<in> set (tasks st'). is_awaiting t}"
  proof -
    have "{t \<in> set (tasks st). is_awaiting t} =
        insert (Awaiting node start) ({t \<in> set (tasks st). is_awaiting t} - {Awaiting node start})"
      by (auto simp: tk)
    then have "task_node ` {t \<in> set (tasks st). is_awaiting t} =
        task_node ` insert (Awaiting node start)
          ({t \<in> set (tasks st). is_awaiting t} - {Awaiting node start})"
      by (rule arg_cong)
    also have "\<dots> =
        insert node (task_node ` ({t \<in> set (tasks st). is_awaiting t} - {Awaiting node start}))"
      by (simp only: image_insert task_node.simps)
    finally show ?thesis unfolding cal' cs F' aw' by blast
  qed
  have l6: "\<forall>no \<in> set (outcomes st'). map_of (results st') (fst no) = Some (result_of (snd no))"
  proof
    fix no assume "no \<in> set (outcomes st')"
    then consider "no \<in> set (outcomes st)" | "no = (node, out)" by (auto simp: out')
    then show "map_of (results st') (fst no) = Some (result_of (snd no))"
    proof cases
      case 1
      with ov have m: "map_of (results st) (fst no) = Some (result_of (snd no))" by blast
      then show ?thesis by (simp add: res' map_add_Some_iff)
    next
      case 2
      with nk show ?thesis by (simp add: res' map_add_Some_iff map_of_eq_None_iff)
    qed
  qed
  have li': "log_inv G st'"
    unfolding log_inv_def
    using tm dc ca om l3 l6 by (simp add: res' tim' cal' out')

  have c1: "card (set (nodes G) - insert node ?F) = card (set (nodes G) - ?F) - 1"
    and c0: "0 < card (set (nodes G) - ?F)"
  proof -
    have e: "set (nodes G) - insert node ?F = (set (nodes G) - ?F) - {node}" by blast
    have i: "node \<in> set (nodes G) - ?F" using nn nF by blast
    then show "card (set (nodes G) - insert node ?F) = card (set (nodes G) - ?F) - 1"
      unfolding e by simp
    from i show "0 < card (set (nodes G) - ?F)" by (auto simp: card_gt_0_iff)
  qed
  have la: "length (filter is_awaiting (tasks st)) = Suc (length (filter is_awaiting (tasks st')))"
    by (simp add: tk tk' filter_map comp_def)
  have "length (filter is_awaiting (tasks st)) \<le> card (set (nodes G) - ?F)"
    using length_filter_le [of is_awaiting "tasks st"] tasks_bound [OF si]
    by (rule order_trans)
  with c1 c0 la have rem: "remaining G st' < remaining G st"
    unfolding remaining_def F' by simp
  show ?thesis
    unfolding fin by (intro exI [of _ st'] conjI st'(1) si' li' rem res' tim' cal' look' ci' tk')
qed

subsection \<open>Every step keeps the invariants\<close>

lemma pick_task_inv:
  assumes ok: "graph_ok G" and ac: "acyclic (edge_rel G)"
    and si: "sched_inv G st" and li: "log_inv G st" and ne: "tasks st \<noteq> []"
  shows "\<exists>st'. pick_task G sched st = Inr st' \<and> sched_inv G st' \<and> log_inv G st' \<and>
           remaining G st' < remaining G st"
proof -
  obtain i out now where sc: "sched st = (i, out, now)" by (cases "sched st")
  define k where "k = i mod length (tasks st)"
  from ne have kl: "k < length (tasks st)" by (simp add: k_def)
  define pre where "pre = take k (tasks st)"
  define post where "post = drop (Suc k) (tasks st)"
  have tk: "tasks st = pre @ (tasks st ! k) # post"
    unfolding pre_def post_def using kl by (rule id_take_nth_drop)
  have pk: "pick_task G sched st = run_task G (tasks st ! k) out now (st\<lparr>tasks := pre @ post\<rparr>)"
    by (simp add: pick_task_def sc Let_def k_def pre_def post_def)
  show ?thesis
  proof (cases "tasks st ! k")
    case (Created node)
    with tk have "tasks st = pre @ Created node # post" by simp
    from begin_task_inv [OF si li this, of now] show ?thesis
      unfolding pk Created by (auto simp: run_task_def)
  next
    case (Awaiting node start)
    with tk have "tasks st = pre @ Awaiting node start # post" by simp
    from finish_task_inv [OF ok ac si li this, of out now] show ?thesis
      unfolding pk Awaiting by (auto simp: run_task_def)
  qed
qed

lemma map_of_map_key: "v \<in> set xs \<Longrightarrow> map_of (map (\<lambda>n. (n, f n)) xs) v = Some (f v)"
  by (induction xs) auto

lemma preds_empty_iff: "preds G v = {} \<longleftrightarrow> in_degree G v = 0"
  by (auto simp: preds_def in_degree_zero_iff)

lemma start_state_inv:
  assumes "single_source_dag (graph dag) (source dag)"
  shows "sched_inv (graph dag) (start_state dag sched (executor_init dag))"
    and "log_inv (graph dag) (start_state dag sched (executor_init dag))"
proof -
  let ?G = "graph dag"
  let ?st = "start_state dag sched (executor_init dag)"
  from assms have ok: "graph_ok ?G"
    and src: "filter (\<lambda>n. in_degree ?G n = 0) (nodes ?G) = [source dag]"
    by (simp_all add: single_source_dag_def)
  from ok have de: "distinct (map fst (edges ?G))" by (simp add: graph_ok_def)
  have r: "results ?st = []" and t: "tasks ?st = [Created (source dag)]"
    and c: "calls ?st = []" and o: "outcomes ?st = []" and tm: "timings ?st = []"
    and i: "in_degrees ?st = map (\<lambda>node. (node, int (in_degree ?G node))) (nodes ?G)"
    by (simp_all add: start_state_def executor_init_def)
  have F: "finished ?st = {}" by (simp add: finished_def r)
  have "{v \<in> set (nodes ?G). in_degree ?G v = 0} = set (filter (\<lambda>n. in_degree ?G n = 0) (nodes ?G))"
    by simp
  also have "\<dots> = {source dag}" by (simp only: src) simp
  finally have s: "{v \<in> set (nodes ?G). preds ?G v \<subseteq> {}} = {source dag}"
    by (simp add: preds_empty_iff)
  have k: "map fst (in_degrees ?st) = nodes ?G" by (simp add: i comp_def)
  have cn: "\<forall>v \<in> set (nodes ?G).
      map_of (in_degrees ?st) v = Some (int (card (preds ?G v - finished ?st)))"
    unfolding F i using in_degree_card [OF de]
    by (simp add: map_of_map_key preds_def)
  show "sched_inv ?G ?st"
    unfolding sched_inv_def using s k cn by (simp add: F r t)
  show "log_inv ?G ?st"
    unfolding log_inv_def by (simp add: F r t c o tm)
qed

lemma reachable_inv:
  assumes ss: "single_source_dag (graph dag) (source dag)" and re: "reachable dag st"
  shows "sched_inv (graph dag) st \<and> log_inv (graph dag) st"
  using re
proof (induction rule: reachable.induct)
  case (start sched)
  from start_state_inv [OF ss] show ?case by blast
next
  case (step st sched st')
  from ss have "graph_ok (graph dag)" "acyclic (edge_rel (graph dag))"
    by (simp_all add: single_source_dag_def)
  from pick_task_inv [OF this, of st sched] step show ?case by auto
next
  case (fail st sched e st')
  from ss have "graph_ok (graph dag)" "acyclic (edge_rel (graph dag))"
    by (simp_all add: single_source_dag_def)
  from pick_task_inv [OF this, of st sched] fail show ?case by auto
qed

subsection \<open>Progress and termination\<close>

lemma finished_card:
  assumes ok: "graph_ok G" and si: "sched_inv G st"
  shows "finished st \<subseteq> set (nodes G)"
    and "length (results st) = card (finished st)"
    and "length (nodes G) = card (set (nodes G))"
proof -
  from si show "finished st \<subseteq> set (nodes G)" unfolding sched_inv_def by blast
  from si have "distinct (map fst (results st))" by (simp add: sched_inv_def)
  from distinct_card [OF this] show "length (results st) = card (finished st)"
    by (simp add: finished_def)
  from ok have "distinct (nodes G)" by (simp add: graph_ok_def)
  from distinct_card [OF this] show "length (nodes G) = card (set (nodes G))" by simp
qed

lemma unfinished_has_task:
  assumes ok: "graph_ok G" and ac: "acyclic (edge_rel G)" and si: "sched_inv G st"
    and un: "finished st \<noteq> set (nodes G)"
  shows "tasks st \<noteq> []"
proof
  assume e: "tasks st = []"
  from si have sd: "finished st \<union> task_node ` set (tasks st) =
      {v \<in> set (nodes G). preds G v \<subseteq> finished st}"
    by (simp add: sched_inv_def)
  from ok have fld: "Field (edge_rel G) \<subseteq> set (nodes G)" by (simp add: graph_ok_def)
  from finished_card(1) [OF ok si] un obtain x where x: "x \<in> set (nodes G) - finished st"
    by blast
  have "wf (edge_rel G)" using ac by (simp add: finite_acyclic_wf)
  from wfE_min [OF this x] obtain z where z: "z \<in> set (nodes G) - finished st"
    and m: "\<And>y. (y, z) \<in> edge_rel G \<Longrightarrow> y \<notin> set (nodes G) - finished st"
    by blast
  have "preds G z \<subseteq> finished st"
  proof
    fix y assume "y \<in> preds G z"
    then have yz: "(y, z) \<in> edge_rel G" by (simp add: preds_def)
    with fld have "y \<in> set (nodes G)" by (auto simp: Field_def)
    with m [OF yz] show "y \<in> finished st" by blast
  qed
  with z have "z \<in> {v \<in> set (nodes G). preds G v \<subseteq> finished st}" by blast
  with sd e z show False by simp
qed

lemma subset_disjoint_empty: "A \<subseteq> B \<Longrightarrow> A \<inter> B = {} \<Longrightarrow> A = {}"
  by auto

lemma wait_until_all_done_ok:
  assumes ok: "graph_ok G" and ac: "acyclic (edge_rel G)"
    and si: "sched_inv G st" and li: "log_inv G st" and fu: "remaining G st < fuel"
  shows "\<exists>st'. wait_until_all_done fuel G sched st = Some st' \<and>
           sched_inv G st' \<and> log_inv G st' \<and> finished st' = set (nodes G) \<and> tasks st' = []"
  using si li fu
proof (induction fuel arbitrary: st)
  case 0
  then show ?case by simp
next
  case (Suc fuel)
  note c = finished_card [OF ok Suc.prems(1)]
  show ?case
  proof (cases "length (results st) < length (nodes G)")
    case True
    with c have "finished st \<noteq> set (nodes G)" by auto
    from unfinished_has_task [OF ok ac Suc.prems(1) this] have ne: "tasks st \<noteq> []" .
    from pick_task_inv [OF ok ac Suc.prems(1,2) ne, of sched]
    obtain st1 where st1: "pick_task G sched st = Inr st1" "sched_inv G st1" "log_inv G st1"
      "remaining G st1 < remaining G st" by blast
    from ne st1(1) have ev: "event_loop_step G sched st = st1"
      by (simp add: event_loop_step_def)
    from st1(4) Suc.prems(3) have "remaining G st1 < fuel" by simp
    from Suc.IH [OF st1(2,3) this] True ev show ?thesis by simp
  next
    case False
    with c have le: "card (set (nodes G)) \<le> card (finished st)" by simp
    have F: "finished st = set (nodes G)"
      by (rule card_seteq [OF finite_set c(1) le])
    from Suc.prems(1) have dj: "task_node ` set (tasks st) \<inter> finished st = {}"
      and sd: "finished st \<union> task_node ` set (tasks st) =
        {v \<in> set (nodes G). preds G v \<subseteq> finished st}"
      by (simp_all add: sched_inv_def)
    from sd have "task_node ` set (tasks st) \<subseteq> set (nodes G)" by blast
    then have "task_node ` set (tasks st) \<subseteq> finished st" by (simp only: F)
    then have "task_node ` set (tasks st) = {}" using dj by (rule subset_disjoint_empty)
    then have "tasks st = []" by simp
    with False F Suc.prems show ?thesis by simp
  qed
qed

subsection \<open>A whole run\<close>

lemma inv_wall_end [simp]:
  "sched_inv G (st\<lparr>wall_end_time := w\<rparr>) = sched_inv G st"
  "log_inv G (st\<lparr>wall_end_time := w\<rparr>) = log_inv G st"
  "finished (st\<lparr>wall_end_time := w\<rparr>) = finished st"
  by (simp_all add: sched_inv_def log_inv_def finished_def)

lemma pick_single_task:
  "tasks st = [t] \<Longrightarrow>
   pick_task G sched st =
     run_task G t (fst (snd (sched st))) (snd (snd (sched st))) (st\<lparr>tasks := []\<rparr>)"
  by (simp add: pick_task_def case_prod_beta Let_def)

lemma wait_reachable:
  "reachable dag st \<Longrightarrow> wait_until_all_done fuel (graph dag) sched st = Some st' \<Longrightarrow>
   reachable dag st'"
proof (induction fuel arbitrary: st)
  case 0
  then show ?case by simp
next
  case (Suc fuel)
  show ?case
  proof (cases "length (results st) < length (nodes (graph dag))")
    case True
    have "reachable dag (event_loop_step (graph dag) sched st)"
    proof (cases "tasks st = []")
      case True
      with Suc.prems(1) show ?thesis by (simp add: event_loop_step_def)
    next
      case False
      show ?thesis
      proof (cases "pick_task (graph dag) sched st")
        case (Inl a)
        obtain e s where "a = (e, s)" by (cases a)
        with Inl False reachable.fail [OF Suc.prems(1) False, of sched e s]
        show ?thesis by (simp add: event_loop_step_def)
      next
        case (Inr s)
        with False reachable.step [OF Suc.prems(1) False, of sched s]
        show ?thesis by (simp add: event_loop_step_def)
      qed
    qed
    from Suc.IH [OF this] Suc.prems(2) True show ?thesis by simp
  next
    case False
    with Suc.prems show ?thesis by simp
  qed
qed

lemma run_ok:
  assumes ss: "single_source_dag (graph dag) (source dag)"
    and fu: "2 * length (nodes (graph dag)) \<le> fuel"
  shows "\<exists>st. run fuel dag sched (executor_init dag) =
             Some (Inr (st\<lparr>wall_end_time := Some (clock sched st)\<rparr>)) \<and>
           reachable dag st \<and>
           sched_inv (graph dag) st \<and> log_inv (graph dag) st \<and>
           finished st = set (nodes (graph dag)) \<and> tasks st = []"
proof -
  let ?G = "graph dag"
  let ?st0 = "start_state dag sched (executor_init dag)"
  from ss have ok: "graph_ok ?G" and ac: "acyclic (edge_rel ?G)"
    by (simp_all add: single_source_dag_def)
  note i0 = start_state_inv [OF ss, of sched]
  have t0: "tasks ?st0 = [] @ Created (source dag) # []" by (simp add: start_state_def)
  have m0: "remaining ?G ?st0 \<le> 2 * length (nodes ?G)"
    unfolding remaining_def using card_length [of "nodes ?G"]
    by (simp add: start_state_def executor_init_def finished_def)
  from begin_task_inv [OF i0 t0, of "snd (snd (sched ?st0))"]
  obtain st1 where st1:
    "begin_task ?G (source dag) (snd (snd (sched ?st0))) (?st0\<lparr>tasks := []\<rparr>) = Inr st1"
    "sched_inv ?G st1" "log_inv ?G st1" "remaining ?G st1 < remaining ?G ?st0"
    "tasks st1 = [Awaiting (source dag) (snd (snd (sched ?st0)))]"
    by auto
  have p1: "pick_task ?G sched ?st0 = Inr st1"
    using pick_single_task [of ?st0 "Created (source dag)" ?G sched] st1(1)
    by (simp add: start_state_def run_task_def)
  have t1: "tasks st1 = [] @ Awaiting (source dag) (snd (snd (sched ?st0))) # []"
    by (simp add: st1(5))
  from finish_task_inv [OF ok ac st1(2,3) t1, of "fst (snd (sched st1))" "snd (snd (sched st1))"]
  obtain st2 where st2:
    "finish_task ?G (source dag) (snd (snd (sched ?st0))) (fst (snd (sched st1)))
       (snd (snd (sched st1))) (st1\<lparr>tasks := []\<rparr>) = Inr st2"
    "sched_inv ?G st2" "log_inv ?G st2" "remaining ?G st2 < remaining ?G st1"
    by auto
  have p2: "pick_task ?G sched st1 = Inr st2"
    using pick_single_task [OF st1(5), of ?G sched] st2(1) by (simp add: run_task_def)
  from st1(4) st2(4) m0 fu have "remaining ?G st2 < fuel" by simp
  from wait_until_all_done_ok [OF ok ac st2(2,3) this, of sched]
  obtain st3 where st3: "wait_until_all_done fuel ?G sched st2 = Some st3"
    "sched_inv ?G st3" "log_inv ?G st3" "finished st3 = set (nodes ?G)" "tasks st3 = []"
    by blast
  have r0: "reachable dag ?st0" by (rule reachable.start)
  have r1: "reachable dag st1"
    by (rule reachable.step [OF r0 _ p1]) (simp add: start_state_def)
  have r2: "reachable dag st2"
    by (rule reachable.step [OF r1 _ p2]) (simp add: st1(5))
  have r3: "reachable dag st3" by (rule wait_reachable [OF r2 st3(1)])
  have "run fuel dag sched (executor_init dag) =
      Some (Inr (st3\<lparr>wall_end_time := Some (clock sched st3)\<rparr>))"
    by (simp add: run_def p1 p2 st3(1))
  with st3 r3 show ?thesis by blast
qed

lemma final_state_counts:
  assumes ok: "graph_ok G" and si: "sched_inv G st" and li: "log_inv G st"
    and F: "finished st = set (nodes G)" and tk: "tasks st = []"
  shows "length (results st) = length (nodes G)"
    and "length (timings st) = length (nodes G)"
    and "distinct (map fst (results st))"
    and "set (map fst (results st)) = set (nodes G)"
    and "map fst (timings st) = map fst (results st)"
    and "map fst (outcomes st) = map fst (results st)"
    and "distinct (map fst (calls st))"
    and "set (map fst (calls st)) = set (nodes G)"
    and "length (calls st) = length (nodes G)"
proof -
  note c = finished_card [OF ok si]
  from c(2,3) F show l: "length (results st) = length (nodes G)" by simp
  from li show tm: "map fst (timings st) = map fst (results st)" by (simp add: log_inv_def)
  from arg_cong [OF tm, of length] l show "length (timings st) = length (nodes G)" by simp
  from si show "distinct (map fst (results st))" by (simp add: sched_inv_def)
  from F show "set (map fst (results st)) = set (nodes G)" by (simp add: finished_def)
  from li show "map fst (outcomes st) = map fst (results st)" by (simp add: log_inv_def)
  from li show dc: "distinct (map fst (calls st))" by (simp add: log_inv_def)
  from li have "set (map fst (calls st)) =
      finished st \<union> task_node ` {t \<in> set (tasks st). is_awaiting t}"
    by (simp add: log_inv_def)
  then show sc: "set (map fst (calls st)) = set (nodes G)" by (simp add: F tk)
  from distinct_card [OF dc] sc c(3) show "length (calls st) = length (nodes G)" by simp
qed

lemma started_iff_counter_zero:
  assumes si: "sched_inv G st"
  shows "finished st \<union> task_node ` set (tasks st) =
         {v \<in> set (nodes G). map_of (in_degrees st) v = Some 0}"
proof -
  from si have sd: "finished st \<union> task_node ` set (tasks st) =
      {v \<in> set (nodes G). preds G v \<subseteq> finished st}"
    and cnt: "\<forall>v \<in> set (nodes G).
      map_of (in_degrees st) v = Some (int (card (preds G v - finished st)))"
    by (simp_all add: sched_inv_def)
  have "map_of (in_degrees st) v = Some 0 \<longleftrightarrow> preds G v \<subseteq> finished st"
    if "v \<in> set (nodes G)" for v
  proof -
    from that cnt have "map_of (in_degrees st) v = Some (int (card (preds G v - finished st)))"
      by blast
    moreover have "card (preds G v - finished st) = 0 \<longleftrightarrow> preds G v - finished st = {}"
      by (simp add: card_eq_0_iff)
    ultimately show ?thesis by auto
  qed
  then have "{v \<in> set (nodes G). preds G v \<subseteq> finished st} =
      {v \<in> set (nodes G). map_of (in_degrees st) v = Some 0}" by blast
  with sd show ?thesis by simp
qed

subsection \<open>What one step does\<close>

lemma pick_task_cases:
  assumes ok: "graph_ok G" and ac: "acyclic (edge_rel G)"
    and si: "sched_inv G st" and li: "log_inv G st" and ne: "tasks st \<noteq> []"
  shows "\<exists>st' pre post node.
      pick_task G sched st = Inr st' \<and> sched_inv G st' \<and> log_inv G st' \<and>
      length pre = fst (sched st) mod length (tasks st) \<and>
      ((tasks st = pre @ Created node # post \<and>
        tasks st' = pre @ post @ [Awaiting node (snd (snd (sched st)))] \<and>
        results st' = results st \<and> in_degrees st' = in_degrees st \<and>
        child_inputs st' = child_inputs st) \<or>
       (\<exists>start.
        tasks st = pre @ Awaiting node start # post \<and>
        results st' = results st @ [(node, result_of (fst (snd (sched st))))] \<and>
        timings st' = timings st @ [(node, snd (snd (sched st)) - start)] \<and>
        (\<forall>v. map_of (in_degrees st') v =
              (if v \<in> set (successors G node)
               then map_option (\<lambda>k. k - 1) (map_of (in_degrees st) v)
               else map_of (in_degrees st) v)) \<and>
        (\<forall>v. child_inputs st' v =
              (if v \<in> set (successors G node)
               then child_inputs st v @ [result_of (fst (snd (sched st)))]
               else child_inputs st v)) \<and>
        tasks st' = pre @ post @
          map Created (filter (\<lambda>s. map_of (in_degrees st) s = Some 1) (successors G node))))"
proof -
  obtain i out now where sc: "sched st = (i, out, now)" by (cases "sched st")
  define k where "k = i mod length (tasks st)"
  from ne have kl: "k < length (tasks st)" by (simp add: k_def)
  define pre where "pre = take k (tasks st)"
  define post where "post = drop (Suc k) (tasks st)"
  have tk: "tasks st = pre @ (tasks st ! k) # post"
    unfolding pre_def post_def using kl by (rule id_take_nth_drop)
  have lp: "length pre = fst (sched st) mod length (tasks st)"
    using kl by (simp add: pre_def sc k_def)
  have pk: "pick_task G sched st = run_task G (tasks st ! k) out now (st\<lparr>tasks := pre @ post\<rparr>)"
    by (simp add: pick_task_def sc Let_def k_def pre_def post_def)
  show ?thesis
  proof (cases "tasks st ! k")
    case (Created node)
    with tk have t: "tasks st = pre @ Created node # post" by simp
    from begin_task_inv [OF si li t, of now]
    obtain st' where "begin_task G node now (st\<lparr>tasks := pre @ post\<rparr>) = Inr st'"
      "sched_inv G st'" "log_inv G st'" "results st' = results st"
      "in_degrees st' = in_degrees st" "child_inputs st' = child_inputs st"
      "tasks st' = pre @ post @ [Awaiting node now]" by blast
    with t lp show ?thesis
      unfolding pk Created run_task_def sc by (intro exI [of _ st'] exI [of _ pre] exI [of _ post] exI [of _ node]) simp
  next
    case (Awaiting node start)
    with tk have t: "tasks st = pre @ Awaiting node start # post" by simp
    from finish_task_inv [OF ok ac si li t, of out now]
    obtain st' where "finish_task G node start out now (st\<lparr>tasks := pre @ post\<rparr>) = Inr st'"
      "sched_inv G st'" "log_inv G st'"
      "results st' = results st @ [(node, result_of out)]"
      "timings st' = timings st @ [(node, now - start)]"
      "\<forall>v. map_of (in_degrees st') v =
           (if v \<in> set (successors G node)
            then map_option (\<lambda>k. k - 1) (map_of (in_degrees st) v)
            else map_of (in_degrees st) v)"
      "\<forall>v. child_inputs st' v =
           (if v \<in> set (successors G node) then child_inputs st v @ [result_of out]
            else child_inputs st v)"
      "tasks st' = pre @ post @
         map Created (filter (\<lambda>s. map_of (in_degrees st) s = Some 1) (successors G node))"
      by blast
    with t lp show ?thesis
      unfolding pk Awaiting run_task_def sc
      by (intro exI [of _ st'] exI [of _ pre] exI [of _ post] exI [of _ node]) simp
  qed
qed

subsection \<open>Runs on generated graphs\<close>

lemma generated_single_source:
  assumes "mset shuffled = mset [0..<nat n]" and "1 \<le> n"
    and "weighted_dag_init n p shuffled iter r = Inr d"
  shows "single_source_dag (graph d) (source d)"
  using weighted_dag_init_ok [OF assms(1,2), of p iter r] assms(3) by auto

lemma event_loop_step_reachable:
  assumes "reachable dag st"
  shows "reachable dag (event_loop_step (graph dag) sched st)"
proof (cases "tasks st = []")
  case True
  with assms show ?thesis by (simp add: event_loop_step_def)
next
  case False
  show ?thesis
  proof (cases "pick_task (graph dag) sched st")
    case (Inl a)
    obtain e s where "a = (e, s)" by (cases a)
    with Inl False reachable.fail [OF assms False, of sched e s]
    show ?thesis by (simp add: event_loop_step_def)
  next
    case (Inr s)
    with False reachable.step [OF assms False, of sched s]
    show ?thesis by (simp add: event_loop_step_def)
  qed
qed

lemma event_loop_steps_reachable:
  "reachable dag st \<Longrightarrow> reachable dag (event_loop_steps k (graph dag) sched st)"
  by (induction k arbitrary: st) (simp_all add: event_loop_step_reachable)

lemma in_edges_sum:
  "sum_list (map snd (in_edges G v)) = sum_list (map snd (filter (\<lambda>e. snd (fst e) = v) (edges G)))"
  by (simp add: in_edges_def comp_def)

lemma final_state_wall:
  assumes ok: "graph_ok G" and si: "sched_inv G st" and li: "log_inv G st"
    and F: "finished st = set (nodes G)" and tk: "tasks st = []"
  shows "length (results (st\<lparr>wall_end_time := w\<rparr>)) = length (nodes G)"
    and "length (timings (st\<lparr>wall_end_time := w\<rparr>)) = length (nodes G)"
    and "distinct (map fst (results (st\<lparr>wall_end_time := w\<rparr>)))"
    and "set (map fst (results (st\<lparr>wall_end_time := w\<rparr>))) = set (nodes G)"
    and "distinct (map fst (timings (st\<lparr>wall_end_time := w\<rparr>)))"
    and "set (map fst (timings (st\<lparr>wall_end_time := w\<rparr>))) = set (nodes G)"
    and "distinct (map fst (outcomes (st\<lparr>wall_end_time := w\<rparr>)))"
    and "set (map fst (outcomes (st\<lparr>wall_end_time := w\<rparr>))) = set (nodes G)"
    and "distinct (map fst (calls (st\<lparr>wall_end_time := w\<rparr>)))"
    and "set (map fst (calls (st\<lparr>wall_end_time := w\<rparr>))) = set (nodes G)"
proof -
  note c = final_state_counts [OF ok si li F tk]
  from c(1) show "length (results (st\<lparr>wall_end_time := w\<rparr>)) = length (nodes G)" by simp
  from c(2) show "length (timings (st\<lparr>wall_end_time := w\<rparr>)) = length (nodes G)" by simp
  from c(3) show "distinct (map fst (results (st\<lparr>wall_end_time := w\<rparr>)))" by simp
  from c(4) show "set (map fst (results (st\<lparr>wall_end_time := w\<rparr>))) = set (nodes G)" by simp
  from c(3) c(5) show "distinct (map fst (timings (st\<lparr>wall_end_time := w\<rparr>)))" by simp
  from c(4) c(5) show "set (map fst (timings (st\<lparr>wall_end_time := w\<rparr>))) = set (nodes G)"
    by simp
  from c(3) c(6) show "distinct (map fst (outcomes (st\<lparr>wall_end_time := w\<rparr>)))" by simp
  from c(4) c(6) show "set (map fst (outcomes (st\<lparr>wall_end_time := w\<rparr>))) = set (nodes G)"
    by simp
  from c(7) show "distinct (map fst (calls (st\<lparr>wall_end_time := w\<rparr>)))" by simp
  from c(8) show "set (map fst (calls (st\<lparr>wall_end_time := w\<rparr>))) = set (nodes G)" by simp
qed

text \<open>
  Claim C1. For every \<open>num_nodes \<ge> 1\<close> and every edge probability, construction of a
  \<open>WeightedDAG\<close> succeeds, the resulting graph has exactly one node of in-degree 0, namely
  the resolved \<open>source\<close> (the node \<open>virtual\<close> when one was added), and every node of
  the graph, however the repair pass treated it, is reachable from that source along
  directed edges.
\<close>

theorem generated_graph_single_source_reachable:
  assumes "mset shuffled = mset [0..<nat n]" and "1 \<le> n"
  shows "\<exists>d. weighted_dag_init n p shuffled iter r = Inr d \<and>
           distinct (nodes (graph d)) \<and>
           filter (\<lambda>v. in_degree (graph d) v = 0) (nodes (graph d)) = [source d] \<and>
           (\<forall>v \<in> set (nodes (graph d)). (source d, v) \<in> (edge_rel (graph d))\<^sup>*)"
proof -
  from weighted_dag_init_ok [OF assms, of p iter r]
  obtain d where d: "weighted_dag_init n p shuffled iter r = Inr d"
    "single_source_dag (graph d) (source d)"
    "\<forall>v \<in> set (nodes (graph d)). (source d, v) \<in> (edge_rel (graph d))\<^sup>*"
    by blast
  from d(2) have "distinct (nodes (graph d))"
    "filter (\<lambda>v. in_degree (graph d) v = 0) (nodes (graph d)) = [source d]"
    by (simp_all add: single_source_dag_def graph_ok_def)
  with d(1,3) show ?thesis by blast
qed

theorem generated_graph_single_source_reachable_witness:
  "mset [2, 0, 1] = mset [0..<nat 3] \<and> (1::int) \<le> 3 \<and>
   (\<exists>d. weighted_dag_init 3 (1 / 2) [2, 0, 1] sort example_rng = Inr d \<and>
      distinct (nodes (graph d)) \<and>
      filter (\<lambda>v. in_degree (graph d) v = 0) (nodes (graph d)) = [source d] \<and>
      (\<forall>v \<in> set (nodes (graph d)). (source d, v) \<in> (edge_rel (graph d))\<^sup>*))"
proof -
  have h1: "mset [2, 0, 1] = mset [0..<nat 3]" by (simp add: upt_rec numeral_eq_Suc)
  have h2: "(1::int) \<le> 3" by simp
  from generated_graph_single_source_reachable [OF h1 h2, of "1 / 2" sort example_rng] h1 h2
  show ?thesis by blast
qed

text \<open>
  Claim C9. For every generated graph, the triples \<open>(node, successor, duration)\<close> read
  off the adjacency-list schema are exactly the edges of the graph with their durations:
  the list of triples has no repetition, and as a set it equals the set of the graph's
  edges with their durations, so no triple is missing, duplicated or altered.
\<close>

theorem schema_round_trip:
  assumes "mset shuffled = mset [0..<nat n]" and "1 \<le> n"
  shows "\<exists>d. weighted_dag_init n p shuffled iter r = Inr d \<and>
           distinct (schema_triples (schema d)) \<and>
           set (schema_triples (schema d)) = graph_triples (graph d)"
proof -
  from weighted_dag_init_ok [OF assms, of p iter r]
  obtain d where d: "weighted_dag_init n p shuffled iter r = Inr d"
    "single_source_dag (graph d) (source d)" "schema d = to_schema (graph d)"
    by blast
  from d(2) have "graph_ok (graph d)" by (simp add: single_source_dag_def)
  from schema_triples_ok [OF this] d(1,3) show ?thesis by auto
qed

theorem schema_round_trip_witness:
  "mset [2, 0, 1] = mset [0..<nat 3] \<and> (1::int) \<le> 3 \<and>
   (\<exists>d. weighted_dag_init 3 (1 / 2) [2, 0, 1] sort example_rng = Inr d \<and>
      distinct (schema_triples (schema d)) \<and>
      set (schema_triples (schema d)) = graph_triples (graph d))"
proof -
  have h1: "mset [2, 0, 1] = mset [0..<nat 3]" by (simp add: upt_rec numeral_eq_Suc)
  have h2: "(1::int) \<le> 3" by simp
  from schema_round_trip [OF h1 h2, of "1 / 2" sort example_rng] h1 h2
  show ?thesis by blast
qed

text \<open>
  Claim C10. The keys of the adjacency-list schema are exactly the nodes with at least
  one outgoing edge. A node of out-degree 0 is not a key, every generated graph has such
  a node, and so the keys are a proper subset of the node set.
\<close>

theorem schema_keys_are_non_sinks:
  assumes "mset shuffled = mset [0..<nat n]" and "1 \<le> n"
  shows "\<exists>d. weighted_dag_init n p shuffled iter r = Inr d \<and>
           fst ` set (schema d) = {u \<in> set (nodes (graph d)). 0 < out_degree (graph d) u} \<and>
           (\<forall>t \<in> set (nodes (graph d)). out_degree (graph d) t = 0 \<longrightarrow> map_of (schema d) t = None) \<and>
           (\<exists>t \<in> set (nodes (graph d)). out_degree (graph d) t = 0) \<and>
           fst ` set (schema d) \<subset> set (nodes (graph d))"
proof -
  from weighted_dag_init_ok [OF assms, of p iter r]
  obtain d where d: "weighted_dag_init n p shuffled iter r = Inr d"
    "single_source_dag (graph d) (source d)" "schema d = to_schema (graph d)"
    "nodes (graph d) \<noteq> []"
    by blast
  let ?G = "graph d"
  from d(2) have ok: "graph_ok ?G" and ac: "acyclic (edge_rel ?G)"
    by (simp_all add: single_source_dag_def)
  have keys: "fst ` set (schema d) = {u \<in> set (nodes ?G). 0 < out_degree ?G u}"
    by (simp only: d(3) to_schema_keys_ok)
  then have none: "map_of (schema d) t = None" if "out_degree ?G t = 0" for t
    using that by (simp add: map_of_eq_None_iff)
  from d(4) obtain v where v: "v \<in> set (nodes ?G)" by (cases "nodes ?G") auto
  from dag_has_sink [OF finite_edge_rel ac, of v]
  obtain t where t: "(v, t) \<in> (edge_rel ?G)\<^sup>*" "t \<notin> Domain (edge_rel ?G)" by blast
  from ok have "Field (edge_rel ?G) \<subseteq> set (nodes ?G)" by (simp add: graph_ok_def)
  from rtrancl_in_nodes2 [OF t(1) v this] have tn: "t \<in> set (nodes ?G)" .
  from t(2) have t0: "out_degree ?G t = 0" by (simp add: out_degree_zero_iff)
  from tn t0 have "t \<notin> {u \<in> set (nodes ?G). 0 < out_degree ?G u}" by simp
  with tn have "{u \<in> set (nodes ?G). 0 < out_degree ?G u} \<subset> set (nodes ?G)" by blast
  then have "fst ` set (schema d) \<subset> set (nodes ?G)" by (simp only: keys)
  with d(1) keys none tn t0 show ?thesis by blast
qed

theorem schema_keys_are_non_sinks_witness:
  "mset [2, 0, 1] = mset [0..<nat 3] \<and> (1::int) \<le> 3 \<and>
   (\<exists>d. weighted_dag_init 3 (1 / 2) [2, 0, 1] sort example_rng = Inr d \<and>
      fst ` set (schema d) = {u \<in> set (nodes (graph d)). 0 < out_degree (graph d) u} \<and>
      (\<forall>t \<in> set (nodes (graph d)). out_degree (graph d) t = 0 \<longrightarrow> map_of (schema d) t = None) \<and>
      (\<exists>t \<in> set (nodes (graph d)). out_degree (graph d) t = 0) \<and>
      fst ` set (schema d) \<subset> set (nodes (graph d)))"
proof -
  have h1: "mset [2, 0, 1] = mset [0..<nat 3]" by (simp add: upt_rec numeral_eq_Suc)
  have h2: "(1::int) \<le> 3" by simp
  from schema_keys_are_non_sinks [OF h1 h2, of "1 / 2" sort example_rng] h1 h2
  show ?thesis by blast
qed

subsection \<open>The graph states of step 3 and the result of \<open>splice\<close>\<close>

lemma splice_states_last: "fst (splice node ts G r) = last (G # splice_states node ts G r)"
proof (induction ts arbitrary: G r)
  case Nil
  show ?case by simp
next
  case (Cons t ts)
  obtain d1 r1 where d1: "randint r = (d1, r1)" by (cases "randint r")
  obtain d2 r2 where d2: "randint r1 = (d2, r2)" by (cases "randint r1")
  let ?G4 = "remove_edge t node (add_edge t node d2 (remove_edge node t (add_edge node t d1 G)))"
  from Cons [of ?G4 r2] show ?case
    by (simp add: d1 d2 Let_def)
qed

text \<open>
  Claim C3, as stated, fails. In the run \<open>example_rng\<close> with three nodes shuffled to
  \<open>[2, 0, 1]\<close> the only forward edge is \<open>0 \<rightarrow> 1\<close>; the repair pass first attaches node 0
  by \<open>0 \<rightarrow> 2\<close>, then tries \<open>1 \<rightarrow> 0\<close> for node 1: the second graph state of step 3 holds
  the cycle \<open>0 \<rightarrow> 1 \<rightarrow> 0\<close> until the test removes the trial edge.
\<close>

theorem repair_trial_edge_cycle_counterexample:
  "step3_states 3 (1 / 2) [2, 0, 1] sort example_rng ! 1 =
     \<lparr>nodes = [2, 0, 1], edges = [((0, 1), 1), ((0, 2), 2), ((1, 0), 3)]\<rparr> \<and>
   \<not> list_all is_directed_acyclic_graph (step3_states 3 (1 / 2) [2, 0, 1] sort example_rng)"
  by code_simp

text \<open>
  Claim C3, amended. For every \<open>num_nodes \<ge> 1\<close> and every edge probability the edge set
  is acyclic after each forward edge of step 2, after each completed iteration of the
  repair loop of step 3 (whatever nodes it is run on), in the graph that
  \<open>_generate_connected_dag\<close> returns, after each virtual-source edge, and in the final
  graph. Of the graph states inside step 3, one after each \<open>add_edge\<close> and each
  \<open>remove_edge\<close>, every state is acyclic except a trial edge that the test rejects, and
  the state right after such a trial is that graph with the trial edge removed and is
  acyclic again.
\<close>

theorem generation_acyclic_between_steps:
  assumes "mset shuffled = mset [0..<nat n]" and "1 \<le> n"
  shows "(\<forall>k. acyclic (edge_rel (fst (fold (maybe_add_edge p shuffled)
             (take k (index_pairs (nat n))) (add_nodes_from shuffled empty_graph, r))))) \<and>
         (\<forall>us reach. acyclic (edge_rel (fst (fold (repair_node iter) us
             (fst (add_random_edges (nat n) p shuffled (add_nodes_from shuffled empty_graph, r)),
              reach,
              snd (add_random_edges (nat n) p shuffled (add_nodes_from shuffled empty_graph, r))))))) \<and>
         (\<exists>G r'. generate_connected_dag n p shuffled iter r = Inr (G, r') \<and>
            acyclic (edge_rel G) \<and>
            (\<forall>ss r''. ''virtual'' \<notin> set ss \<longrightarrow>
               acyclic (edge_rel (fst (fold add_virtual_edge ss (G, r'')))))) \<and>
         (\<exists>d. weighted_dag_init n p shuffled iter r = Inr d \<and> acyclic (edge_rel (graph d))) \<and>
         (\<forall>i < length (step3_states n p shuffled iter r).
            acyclic (edge_rel (step3_states n p shuffled iter r ! i)) \<or>
            (Suc i < length (step3_states n p shuffled iter r) \<and>
             acyclic (edge_rel (step3_states n p shuffled iter r ! Suc i)) \<and>
             (\<exists>u v. step3_states n p shuffled iter r ! Suc i =
                remove_edge u v (step3_states n p shuffled iter r ! i))))"
proof -
  let ?G0 = "add_nodes_from shuffled (empty_graph :: nat digraph)"
  let ?S2 = "add_random_edges (nat n) p shuffled (?G0, r)"
  from assms(1) have len: "length shuffled = nat n"
    by (metis length_upt mset_eq_length minus_nat.diff_0)
  from assms(1) have dist: "distinct shuffled" by (metis distinct_upt mset_eq_imp_distinct_iff)
  have ok0: "graph_ok (fst (?G0, r))" by (simp add: graph_ok_add_nodes_from graph_ok_empty)
  have rel0: "edge_rel (fst (?G0, r)) \<subseteq> forward_rel shuffled"
    by (simp add: edge_rel_def empty_graph_def)
  have step2: "graph_ok (fst (fold (maybe_add_edge p shuffled) (take k (index_pairs (nat n))) (?G0, r))) \<and>
      edge_rel (fst (fold (maybe_add_edge p shuffled) (take k (index_pairs (nat n))) (?G0, r)))
        \<subseteq> forward_rel shuffled" for k
  proof (rule add_random_edges_inv [OF _ ok0 rel0])
    show "\<forall>ij \<in> set (take k (index_pairs (nat n))). fst ij < snd ij \<and> snd ij < length shuffled"
      using set_index_pairs len by (metis in_set_takeD)
  qed
  have a: "acyclic (edge_rel (fst (fold (maybe_add_edge p shuffled)
      (take k (index_pairs (nat n))) (?G0, r))))" for k
    using step2 [of k] acyclic_forward_rel [OF dist] by (meson acyclic_subset)
  from step2 [of "length (index_pairs (nat n))"]
  have ok2: "graph_ok (fst ?S2)" and "edge_rel (fst ?S2) \<subseteq> forward_rel shuffled"
    by (simp_all add: add_random_edges_def)
  with acyclic_forward_rel [OF dist] have ac2: "acyclic (edge_rel (fst ?S2))"
    by (meson acyclic_subset)
  have b: "acyclic (edge_rel (fst (fold (repair_node iter) us (fst ?S2, reach, snd ?S2))))"
    for us reach
    using fold_repair_node_inv [of "(fst ?S2, reach, snd ?S2)" iter us] ok2 ac2 by simp
  from generate_connected_dag_ok [OF assms, of p iter r]
  obtain G r' where gen: "generate_connected_dag n p shuffled iter r = Inr (G, r')"
    and G: "graph_ok G" "acyclic (edge_rel G)" "''virtual'' \<notin> set (nodes G)"
    by blast
  from G(1,3) have nvr: "''virtual'' \<notin> Range (edge_rel G)"
    by (auto simp: graph_ok_def Field_def)
  have c: "acyclic (edge_rel (fst (fold add_virtual_edge ss (G, r''))))"
    if "''virtual'' \<notin> set ss" for ss r''
  proof -
    have "graph_ok (fst (fold add_virtual_edge ss (G, r''))) \<and>
        acyclic (edge_rel (fst (fold add_virtual_edge ss (G, r'')))) \<and>
        edge_rel (fst (fold add_virtual_edge ss (G, r''))) =
          edge_rel (fst (G, r'')) \<union> {''virtual''} \<times> set ss \<and>
        set (nodes (fst (fold add_virtual_edge ss (G, r'')))) =
          set (nodes (fst (G, r''))) \<union> (if ss = [] then {} else {''virtual''}) \<union> set ss"
      by (rule fold_add_virtual_edge) (use G(1,2) nvr that in simp_all)
    then show ?thesis by blast
  qed
  from weighted_dag_init_ok [OF assms, of p iter r]
  obtain d where d: "weighted_dag_init n p shuffled iter r = Inr d"
    "single_source_dag (graph d) (source d)" by blast
  from d(2) have e: "acyclic (edge_rel (graph d))" by (simp add: single_source_dag_def)
  have f: "acyclic (edge_rel (step3_states n p shuffled iter r ! i)) \<or>
      (Suc i < length (step3_states n p shuffled iter r) \<and>
       acyclic (edge_rel (step3_states n p shuffled iter r ! Suc i)) \<and>
       (\<exists>u v. step3_states n p shuffled iter r ! Suc i =
          remove_edge u v (step3_states n p shuffled iter r ! i)))"
    if "i < length (step3_states n p shuffled iter r)" for i
    using trials_undone_nth [OF step3_states_undone [OF assms(1), of p iter r] that]
    unfolding is_directed_acyclic_graph_def by blast
  have c1: "\<forall>k. acyclic (edge_rel (fst (fold (maybe_add_edge p shuffled)
      (take k (index_pairs (nat n))) (?G0, r))))"
    using a by blast
  have c2: "\<forall>us reach. acyclic (edge_rel (fst (fold (repair_node iter) us
      (fst ?S2, reach, snd ?S2))))"
    using b by blast
  have c3: "\<exists>G r'. generate_connected_dag n p shuffled iter r = Inr (G, r') \<and>
      acyclic (edge_rel G) \<and>
      (\<forall>ss r''. ''virtual'' \<notin> set ss \<longrightarrow>
         acyclic (edge_rel (fst (fold add_virtual_edge ss (G, r'')))))"
    using gen G(2) c by blast
  have c4: "\<exists>d. weighted_dag_init n p shuffled iter r = Inr d \<and> acyclic (edge_rel (graph d))"
    using d(1) e by blast
  have c5: "\<forall>i < length (step3_states n p shuffled iter r).
      acyclic (edge_rel (step3_states n p shuffled iter r ! i)) \<or>
      (Suc i < length (step3_states n p shuffled iter r) \<and>
       acyclic (edge_rel (step3_states n p shuffled iter r ! Suc i)) \<and>
       (\<exists>u v. step3_states n p shuffled iter r ! Suc i =
          remove_edge u v (step3_states n p shuffled iter r ! i)))"
    using f by blast
  show ?thesis by (intro conjI c1 c2 c3 c4 c5)
qed

theorem generation_acyclic_between_steps_witness:
  "mset [2, 0, 1] = mset [0..<nat 3] \<and> (1::int) \<le> 3 \<and>
   (\<exists>G r'. generate_connected_dag 3 (1 / 2) [2, 0, 1] sort example_rng = Inr (G, r') \<and>
      acyclic (edge_rel G) \<and> ''virtual'' \<notin> set [''node_0'', ''node_1''] \<and>
      acyclic (edge_rel (fst (fold add_virtual_edge [''node_0'', ''node_1''] (G, r'))))) \<and>
   (\<exists>d. weighted_dag_init 3 (1 / 2) [2, 0, 1] sort example_rng = Inr d \<and>
      acyclic (edge_rel (graph d))) \<and>
   1 < length (step3_states 3 (1 / 2) [2, 0, 1] sort example_rng) \<and>
   \<not> acyclic (edge_rel (step3_states 3 (1 / 2) [2, 0, 1] sort example_rng ! 1)) \<and>
   acyclic (edge_rel (step3_states 3 (1 / 2) [2, 0, 1] sort example_rng ! Suc 1)) \<and>
   2 < length (step3_states 3 (1 / 2) [2, 0, 1] sort example_rng) \<and>
   acyclic (edge_rel (step3_states 3 (1 / 2) [2, 0, 1] sort example_rng ! 2))"
proof -
  have h1: "mset [2, 0, 1] = mset [0..<nat 3]" by (simp add: upt_rec numeral_eq_Suc)
  have h2: "(1::int) \<le> 3" by simp
  have h3: "''virtual'' \<notin> set [''node_0'', ''node_1'']" by simp
  have h4: "1 < length (step3_states 3 (1 / 2) [2, 0, 1] sort example_rng)" by code_simp
  have h5: "\<not> acyclic (edge_rel (step3_states 3 (1 / 2) [2, 0, 1] sort example_rng ! 1))"
    by code_simp
  have h6: "2 < length (step3_states 3 (1 / 2) [2, 0, 1] sort example_rng)" by code_simp
  have h7: "Suc 1 = 2" by simp
  note t = generation_acyclic_between_steps [OF h1 h2, of "1 / 2" example_rng sort]
  from t h3 have w1: "\<exists>G r'. generate_connected_dag 3 (1 / 2) [2, 0, 1] sort example_rng = Inr (G, r') \<and>
      acyclic (edge_rel G) \<and> ''virtual'' \<notin> set [''node_0'', ''node_1''] \<and>
      acyclic (edge_rel (fst (fold add_virtual_edge [''node_0'', ''node_1''] (G, r'))))"
    by blast
  from t have w2: "\<exists>d. weighted_dag_init 3 (1 / 2) [2, 0, 1] sort example_rng = Inr d \<and>
      acyclic (edge_rel (graph d))" by blast
  from t h4 h5 have w3: "acyclic (edge_rel (step3_states 3 (1 / 2) [2, 0, 1] sort example_rng ! Suc 1))"
    by blast
  then have w4: "acyclic (edge_rel (step3_states 3 (1 / 2) [2, 0, 1] sort example_rng ! 2))"
    by (simp only: h7)
  show ?thesis by (intro conjI h1 h2 w1 w2 h4 h5 w3 h6 w4)
qed

text \<open>
  Claim C8, as stated, fails: nothing checks the configuration. With the edge probability
  2 and two nodes the generation returns a graph: every draw is below 2, so the forward
  edge is added as if the probability were 1.
\<close>

theorem probability_out_of_range_accepted_counterexample:
  "map_sum id graph (weighted_dag_init 2 2 [1, 0] sort example_rng) =
   Inr \<lparr>nodes = [''node_1'', ''node_0''], edges = [((''node_1'', ''node_0''), 1)]\<rparr>"
  by code_simp

text \<open>
  Claim C8, amended. The generation has no configuration check. For \<open>num_nodes \<le> 0\<close> the
  shuffled list is empty and the construction ends in the \<open>IndexError\<close> of
  \<open>ordering[0]\<close> at step 3, whatever the edge probability. For \<open>num_nodes \<ge> 1\<close> it
  returns a graph for every edge probability, also one outside \<open>[0, 1]\<close>.
\<close>

theorem generation_fails_only_on_empty_ordering:
  assumes "mset shuffled = mset [0..<nat n]"
  shows "(n \<le> 0 \<longrightarrow> weighted_dag_init n p shuffled iter r = Inl IndexError) \<and>
         (1 \<le> n \<longrightarrow> (\<exists>d. weighted_dag_init n p shuffled iter r = Inr d))"
proof (intro conjI impI)
  assume "n \<le> 0"
  with assms have "shuffled = []" by simp
  then show "weighted_dag_init n p shuffled iter r = Inl IndexError"
    by (simp add: weighted_dag_init_def generate_connected_dag_def Let_def)
next
  assume "1 \<le> n"
  from weighted_dag_init_ok [OF assms this, of p iter r]
  show "\<exists>d. weighted_dag_init n p shuffled iter r = Inr d" by blast
qed

theorem generation_fails_only_on_empty_ordering_witness:
  "mset [] = mset [0..<nat 0] \<and> (0::int) \<le> 0 \<and>
   weighted_dag_init 0 5 [] sort example_rng = Inl IndexError \<and>
   mset [1, 0] = mset [0..<nat 2] \<and> (1::int) \<le> 2 \<and>
   (\<exists>d. weighted_dag_init 2 5 [1, 0] sort example_rng = Inr d)"
proof -
  have h1: "mset [] = mset [0..<nat 0]" by simp
  have h2: "mset [1, 0] = mset [0..<nat 2]" by (simp add: upt_rec numeral_eq_Suc)
  from generation_fails_only_on_empty_ordering [OF h1, of 5 sort example_rng]
    generation_fails_only_on_empty_ordering [OF h2, of 5 sort example_rng] h1 h2
  show ?thesis by simp
qed

text \<open>
  Claim C7. Once \<open>run\<close> has set both wall times, \<open>get_performance_metrics\<close> returns
  \<open>speedup = sequential_time / wall_time\<close> for a positive wall time and infinity for wall
  time 0; \<open>alpha\<close> is \<open>1 - time_saved / sequential_time\<close> clamped to \<open>[0, 1]\<close>, and 1 when
  the sequential time is 0; and \<open>alpha\<close> lies in \<open>[0, 1]\<close> for all timing values.
\<close>

theorem metrics_speedup_and_alpha:
  assumes "wall_start_time st = Some s" and "wall_end_time st = Some e"
  shows "\<exists>m. get_performance_metrics st = Inr m \<and>
           sequential_time m = sum_list (map snd (timings st)) \<and>
           wall_time m = e - s \<and>
           time_saved m = sequential_time m - wall_time m \<and>
           (0 < wall_time m \<longrightarrow> speedup m = Finite (sequential_time m / wall_time m)) \<and>
           (wall_time m = 0 \<longrightarrow> speedup m = Infinity) \<and>
           (sequential_time m \<noteq> 0 \<longrightarrow>
              alpha m = min 1 (max 0 (1 - time_saved m / sequential_time m))) \<and>
           (sequential_time m = 0 \<longrightarrow> alpha m = 1) \<and>
           0 \<le> alpha m \<and> alpha m \<le> 1"
  using assms by (simp add: get_performance_metrics_def Let_def)

theorem metrics_speedup_and_alpha_witness:
  "wall_start_time
     \<lparr>results = [], timings = [(''node_0'', 1), (''node_1'', 3)], active_tasks = 0,
      max_parallelism = 2, child_inputs = (\<lambda>_. []), in_degrees = [],
      wall_start_time = Some 5, wall_end_time = Some 7, tasks = [], calls = [],
      outcomes = []\<rparr> = Some 5 \<and>
   (\<exists>m. get_performance_metrics
      \<lparr>results = [], timings = [(''node_0'', 1), (''node_1'', 3)], active_tasks = 0,
       max_parallelism = 2, child_inputs = (\<lambda>_. []), in_degrees = [],
       wall_start_time = Some 5, wall_end_time = Some 7, tasks = [], calls = [],
       outcomes = []\<rparr> = Inr m \<and>
      (0::real) < wall_time m \<and> speedup m = Finite 2 \<and> sequential_time m \<noteq> 0 \<and>
      alpha m = 1 / 2 \<and> 0 \<le> alpha m \<and> alpha m \<le> 1)"
  using metrics_speedup_and_alpha [of
     "\<lparr>results = [], timings = [(''node_0'', 1), (''node_1'', 3)], active_tasks = 0,
       max_parallelism = 2, child_inputs = (\<lambda>_. []), in_degrees = [],
       wall_start_time = Some 5, wall_end_time = Some 7, tasks = [], calls = [],
       outcomes = []\<rparr>" 5 7]
  by auto

text \<open>
  Claim C2. On a generated graph (its node list counts the node \<open>virtual\<close> when one was
  added) \<open>run\<close> returns, whatever the scheduler does and whether the strategy returns or
  raises on a call, as soon as the polling loop is given two rounds per node; it raises
  nothing, and it leaves one entry in \<open>results\<close> and one in \<open>timings\<close> for each node of the
  graph and no other. Each entry was written once: the log of the writes has each node
  once.
\<close>

theorem run_records_every_node_once:
  assumes "mset shuffled = mset [0..<nat n]" and "1 \<le> n"
    and "weighted_dag_init n p shuffled iter r = Inr d"
    and "2 * length (nodes (graph d)) \<le> fuel"
  shows "\<exists>st. run fuel d sched (executor_init d) = Some (Inr st) \<and>
           distinct (nodes (graph d)) \<and>
           length (results st) = length (nodes (graph d)) \<and>
           length (timings st) = length (nodes (graph d)) \<and>
           distinct (map fst (results st)) \<and>
           set (map fst (results st)) = set (nodes (graph d)) \<and>
           distinct (map fst (timings st)) \<and>
           set (map fst (timings st)) = set (nodes (graph d)) \<and>
           distinct (map fst (outcomes st)) \<and>
           set (map fst (outcomes st)) = set (nodes (graph d))"
proof -
  from generated_single_source [OF assms(1-3)]
  have ss: "single_source_dag (graph d) (source d)" .
  then have ok: "graph_ok (graph d)" by (simp add: single_source_dag_def)
  then have dn: "distinct (nodes (graph d))" by (simp add: graph_ok_def)
  from run_ok [OF ss assms(4), of sched]
  obtain st where st:
    "run fuel d sched (executor_init d) = Some (Inr (st\<lparr>wall_end_time := Some (clock sched st)\<rparr>))"
    "sched_inv (graph d) st" "log_inv (graph d) st"
    "finished st = set (nodes (graph d))" "tasks st = []"
    by blast
  note f = final_state_wall [OF ok st(2-5), of "Some (clock sched st)"]
  show ?thesis
    apply (rule exI [of _ "st\<lparr>wall_end_time := Some (clock sched st)\<rparr>"])
    apply (intro conjI)
    apply (rule st(1))
    apply (rule dn)
    apply (rule f(1))
    apply (rule f(2))
    apply (rule f(3))
    apply (rule f(4))
    apply (rule f(5))
    apply (rule f(6))
    apply (rule f(7))
    apply (rule f(8))
    done
qed

theorem run_records_every_node_once_witness:
  "mset [0, 1, 2] = mset [0..<nat 3] \<and> (1::int) \<le> 3 \<and>
   weighted_dag_init 3 (1 / 2) [0, 1, 2] sort all_edges_rng = Inr example_dag \<and>
   2 * length (nodes (graph example_dag)) \<le> (6::nat) \<and>
   (\<exists>st. run 6 example_dag example_sched (executor_init example_dag) = Some (Inr st) \<and>
      distinct (nodes (graph example_dag)) \<and>
      length (results st) = length (nodes (graph example_dag)) \<and>
      length (timings st) = length (nodes (graph example_dag)) \<and>
      distinct (map fst (results st)) \<and>
      set (map fst (results st)) = set (nodes (graph example_dag)) \<and>
      distinct (map fst (timings st)) \<and>
      set (map fst (timings st)) = set (nodes (graph example_dag)) \<and>
      distinct (map fst (outcomes st)) \<and>
      set (map fst (outcomes st)) = set (nodes (graph example_dag)))"
proof -
  have h1: "mset [0, 1, 2] = mset [0..<nat 3]" by (simp add: upt_rec numeral_eq_Suc)
  have h2: "(1::int) \<le> 3" by simp
  have h3: "weighted_dag_init 3 (1 / 2) [0, 1, 2] sort all_edges_rng = Inr example_dag"
    by code_simp
  have h4: "2 * length (nodes (graph example_dag)) \<le> (6::nat)" by code_simp
  from run_records_every_node_once [OF h1 h2 h3 h4, of example_sched] h1 h2 h3 h4
  show ?thesis by (intro conjI)
qed

text \<open>
  Claim C4. On a generated graph, take any state a run can pass through and a step in
  which the strategy raises for the node whose task runs. The step ends normally: the
  result recorded for the node is \<open>ERROR: \<close> followed by the message, the node, which had
  no result before, gets its entries in \<open>results\<close> and \<open>timings\<close>, the counter of each
  successor goes down by one, each successor gets the error string appended to its
  inputs, and the successors whose counter has reached 0 get their task. A whole run, in
  which the strategy may raise for any node, returns without an exception when it is
  given two rounds per node: every node is recorded once, a node whose call raised with
  the error string and a node whose call returned with the value returned.
\<close>

theorem strategy_exception_is_contained:
  assumes "mset shuffled = mset [0..<nat n]" and "1 \<le> n"
    and "weighted_dag_init n p shuffled iter r = Inr d"
    and "reachable d st"
    and "sched st = (i, Raises msg, now)"
    and "i < length (tasks st)"
    and "tasks st ! i = Awaiting node start"
    and "2 * length (nodes (graph d)) \<le> fuel"
  shows "(\<exists>st'. pick_task (graph d) sched st = Inr st' \<and> reachable d st' \<and>
            node \<notin> fst ` set (results st) \<and>
            results st' = results st @ [(node, ''ERROR: '' @ msg)] \<and>
            timings st' = timings st @ [(node, now - start)] \<and>
            (\<forall>s \<in> set (successors (graph d) node).
               map_of (in_degrees st') s = map_option (\<lambda>k. k - 1) (map_of (in_degrees st) s) \<and>
               child_inputs st' s = child_inputs st s @ [''ERROR: '' @ msg]) \<and>
            tasks st' = take i (tasks st) @ drop (Suc i) (tasks st) @
              map Created (filter (\<lambda>s. map_of (in_degrees st') s = Some 0)
                             (successors (graph d) node))) \<and>
         (\<exists>stf. run fuel d sched' (executor_init d) = Some (Inr stf) \<and>
            distinct (map fst (outcomes stf)) \<and>
            set (map fst (outcomes stf)) = set (nodes (graph d)) \<and>
            set (map fst (results stf)) = set (nodes (graph d)) \<and>
            set (map fst (timings stf)) = set (nodes (graph d)) \<and>
            (\<forall>no \<in> set (outcomes stf).
               map_of (results stf) (fst no) =
                 Some (case snd no of Returns s \<Rightarrow> s | Raises m \<Rightarrow> ''ERROR: '' @ m)))"
proof -
  let ?G = "graph d"
  from generated_single_source [OF assms(1-3)]
  have ss: "single_source_dag ?G (source d)" .
  then have ok: "graph_ok ?G" and ac: "acyclic (edge_rel ?G)"
    by (simp_all add: single_source_dag_def)
  from reachable_inv [OF ss assms(4)] have si: "sched_inv ?G st" and li: "log_inv ?G st"
    by blast+
  define pre where "pre = take i (tasks st)"
  define post where "post = drop (Suc i) (tasks st)"
  have tk: "tasks st = pre @ Awaiting node start # post"
    unfolding pre_def post_def assms(7) [symmetric] using assms(6) by (rule id_take_nth_drop)
  from assms(6) have ne: "tasks st \<noteq> []" by auto
  have pk: "pick_task ?G sched st =
      finish_task ?G node start (Raises msg) now (st\<lparr>tasks := pre @ post\<rparr>)"
    using assms(6) by (simp add: pick_task_def assms(5) Let_def assms(7) run_task_def
        pre_def post_def)
  from finish_task_inv [OF ok ac si li tk, of "Raises msg" now]
  obtain st' where st':
    "finish_task ?G node start (Raises msg) now (st\<lparr>tasks := pre @ post\<rparr>) = Inr st'"
    "sched_inv ?G st'"
    "results st' = results st @ [(node, result_of (Raises msg))]"
    "timings st' = timings st @ [(node, now - start)]"
    "\<forall>v. map_of (in_degrees st') v =
         (if v \<in> set (successors ?G node)
          then map_option (\<lambda>k. k - 1) (map_of (in_degrees st) v)
          else map_of (in_degrees st) v)"
    "\<forall>v. child_inputs st' v =
         (if v \<in> set (successors ?G node) then child_inputs st v @ [result_of (Raises msg)]
          else child_inputs st v)"
    "tasks st' = pre @ post @
       map Created (filter (\<lambda>s. map_of (in_degrees st) s = Some 1) (successors ?G node))"
    by blast
  have ro: "result_of (Raises msg) = ''ERROR: '' @ msg" by (simp add: result_of_def)
  have a1: "pick_task ?G sched st = Inr st'" by (simp only: pk st'(1))
  have a2: "reachable d st'" by (rule reachable.step [OF assms(4) ne a1])
  from si have "task_node ` set (tasks st) \<inter> finished st = {}" by (simp add: sched_inv_def)
  moreover have "node \<in> task_node ` set (tasks st)" by (force simp: tk)
  ultimately have a3: "node \<notin> fst ` set (results st)" by (auto simp: finished_def)
  have a4: "results st' = results st @ [(node, ''ERROR: '' @ msg)]"
    using st'(3) by (simp only: ro)
  have a5: "\<forall>s \<in> set (successors ?G node).
      map_of (in_degrees st') s = map_option (\<lambda>k. k - 1) (map_of (in_degrees st) s) \<and>
      child_inputs st' s = child_inputs st s @ [''ERROR: '' @ msg]"
    using st'(5,6) by (simp add: ro)
  have keys: "set (successors ?G node) \<subseteq> set (nodes ?G)"
    using ok by (auto simp: set_successors graph_ok_def Field_def edge_rel_def)
  from si have cnt: "\<forall>v \<in> set (nodes ?G).
      map_of (in_degrees st) v = Some (int (card (preds ?G v - finished st)))"
    by (simp add: sched_inv_def)
  have flt: "filter (\<lambda>s. map_of (in_degrees st) s = Some 1) (successors ?G node) =
      filter (\<lambda>s. map_of (in_degrees st') s = Some 0) (successors ?G node)"
  proof (rule filter_cong [OF refl])
    fix s assume s: "s \<in> set (successors ?G node)"
    with keys cnt obtain k where k: "map_of (in_degrees st) s = Some k" by blast
    from s st'(5) have "map_of (in_degrees st') s = Some (k - 1)" by (simp add: k)
    with k show "(map_of (in_degrees st) s = Some 1) = (map_of (in_degrees st') s = Some 0)"
      by auto
  qed
  have a6: "tasks st' = take i (tasks st) @ drop (Suc i) (tasks st) @
      map Created (filter (\<lambda>s. map_of (in_degrees st') s = Some 0) (successors ?G node))"
    using st'(7) by (simp only: flt pre_def post_def)
  have step: "\<exists>st'. pick_task ?G sched st = Inr st' \<and> reachable d st' \<and>
            node \<notin> fst ` set (results st) \<and>
            results st' = results st @ [(node, ''ERROR: '' @ msg)] \<and>
            timings st' = timings st @ [(node, now - start)] \<and>
            (\<forall>s \<in> set (successors ?G node).
               map_of (in_degrees st') s = map_option (\<lambda>k. k - 1) (map_of (in_degrees st) s) \<and>
               child_inputs st' s = child_inputs st s @ [''ERROR: '' @ msg]) \<and>
            tasks st' = take i (tasks st) @ drop (Suc i) (tasks st) @
              map Created (filter (\<lambda>s. map_of (in_degrees st') s = Some 0)
                             (successors ?G node))"
    apply (rule exI [of _ st'])
    apply (intro conjI)
    apply (rule a1)
    apply (rule a2)
    apply (rule a3)
    apply (rule a4)
    apply (rule st'(4))
    apply (rule a5)
    apply (rule a6)
    done
  from run_ok [OF ss assms(8), of sched']
  obtain st3 where st3:
    "run fuel d sched' (executor_init d) =
       Some (Inr (st3\<lparr>wall_end_time := Some (clock sched' st3)\<rparr>))"
    "sched_inv ?G st3" "log_inv ?G st3" "finished st3 = set (nodes ?G)" "tasks st3 = []"
    by blast
  note f = final_state_wall [OF ok st3(2-5), of "Some (clock sched' st3)"]
  from st3(3) have "\<forall>no \<in> set (outcomes st3).
      map_of (results st3) (fst no) = Some (result_of (snd no))"
    by (simp add: log_inv_def)
  then have b: "\<forall>no \<in> set (outcomes (st3\<lparr>wall_end_time := Some (clock sched' st3)\<rparr>)).
      map_of (results (st3\<lparr>wall_end_time := Some (clock sched' st3)\<rparr>)) (fst no) =
        Some (case snd no of Returns s \<Rightarrow> s | Raises m \<Rightarrow> ''ERROR: '' @ m)"
    by (simp add: result_of_def)
  have whole: "\<exists>stf. run fuel d sched' (executor_init d) = Some (Inr stf) \<and>
            distinct (map fst (outcomes stf)) \<and>
            set (map fst (outcomes stf)) = set (nodes ?G) \<and>
            set (map fst (results stf)) = set (nodes ?G) \<and>
            set (map fst (timings stf)) = set (nodes ?G) \<and>
            (\<forall>no \<in> set (outcomes stf).
               map_of (results stf) (fst no) =
                 Some (case snd no of Returns s \<Rightarrow> s | Raises m \<Rightarrow> ''ERROR: '' @ m))"
    apply (rule exI [of _ "st3\<lparr>wall_end_time := Some (clock sched' st3)\<rparr>"])
    apply (intro conjI)
    apply (rule st3(1))
    apply (rule f(7))
    apply (rule f(8))
    apply (rule f(4))
    apply (rule f(6))
    apply (rule b)
    done
  from step whole show ?thesis by (rule conjI)
qed

theorem strategy_exception_is_contained_witness:
  "mset [0, 1, 2] = mset [0..<nat 3] \<and> (1::int) \<le> 3 \<and>
   weighted_dag_init 3 (1 / 2) [0, 1, 2] sort all_edges_rng = Inr example_dag \<and>
   reachable example_dag (event_loop_steps 1 (graph example_dag) example_sched
        (start_state example_dag example_sched (executor_init example_dag))) \<and>
   example_sched (event_loop_steps 1 (graph example_dag) example_sched
        (start_state example_dag example_sched (executor_init example_dag))) = (0, Raises ''boom'', 1) \<and>
   0 < length (tasks (event_loop_steps 1 (graph example_dag) example_sched
        (start_state example_dag example_sched (executor_init example_dag)))) \<and>
   tasks (event_loop_steps 1 (graph example_dag) example_sched
        (start_state example_dag example_sched (executor_init example_dag))) ! 0 = Awaiting ''node_0'' 0 \<and>
   2 * length (nodes (graph example_dag)) \<le> (6::nat) \<and>
   successors (graph example_dag) ''node_0'' = [''node_1'', ''node_2''] \<and>
   map_option (map_sum id results) (run 6 example_dag example_sched (executor_init example_dag)) =
     Some (Inr [(''node_0'', ''ERROR: boom''), (''node_1'', ''ok''), (''node_2'', ''ok'')]) \<and>
   (\<exists>st'. pick_task (graph example_dag) example_sched (event_loop_steps 1 (graph example_dag) example_sched
        (start_state example_dag example_sched (executor_init example_dag))) = Inr st' \<and>
      reachable example_dag st' \<and>
      ''node_0'' \<notin> fst ` set (results (event_loop_steps 1 (graph example_dag) example_sched
        (start_state example_dag example_sched (executor_init example_dag)))) \<and>
      results st' = results (event_loop_steps 1 (graph example_dag) example_sched
        (start_state example_dag example_sched (executor_init example_dag))) @ [(''node_0'', ''ERROR: '' @ ''boom'')] \<and>
      timings st' = timings (event_loop_steps 1 (graph example_dag) example_sched
        (start_state example_dag example_sched (executor_init example_dag))) @ [(''node_0'', 1 - 0)] \<and>
      (\<forall>s \<in> set (successors (graph example_dag) ''node_0'').
         map_of (in_degrees st') s = map_option (\<lambda>k. k - 1) (map_of (in_degrees (event_loop_steps 1 (graph example_dag) example_sched
        (start_state example_dag example_sched (executor_init example_dag)))) s) \<and>
         child_inputs st' s = child_inputs (event_loop_steps 1 (graph example_dag) example_sched
        (start_state example_dag example_sched (executor_init example_dag))) s @ [''ERROR: '' @ ''boom'']) \<and>
      tasks st' = take 0 (tasks (event_loop_steps 1 (graph example_dag) example_sched
        (start_state example_dag example_sched (executor_init example_dag)))) @ drop (Suc 0) (tasks (event_loop_steps 1 (graph example_dag) example_sched
        (start_state example_dag example_sched (executor_init example_dag)))) @
        map Created (filter (\<lambda>s. map_of (in_degrees st') s = Some 0)
                       (successors (graph example_dag) ''node_0''))) \<and>
   (\<exists>stf. run 6 example_dag example_sched (executor_init example_dag) = Some (Inr stf) \<and>
      distinct (map fst (outcomes stf)) \<and>
      set (map fst (outcomes stf)) = set (nodes (graph example_dag)) \<and>
      set (map fst (results stf)) = set (nodes (graph example_dag)) \<and>
      set (map fst (timings stf)) = set (nodes (graph example_dag)) \<and>
      (\<forall>no \<in> set (outcomes stf).
         map_of (results stf) (fst no) =
           Some (case snd no of Returns s \<Rightarrow> s | Raises m \<Rightarrow> ''ERROR: '' @ m)))"
proof -
  let ?s1 = "event_loop_steps 1 (graph example_dag) example_sched
        (start_state example_dag example_sched (executor_init example_dag))"
  have h1: "mset [0, 1, 2] = mset [0..<nat 3]" by (simp add: upt_rec numeral_eq_Suc)
  have h2: "(1::int) \<le> 3" by simp
  have h3: "weighted_dag_init 3 (1 / 2) [0, 1, 2] sort all_edges_rng = Inr example_dag"
    by code_simp
  have h4: "reachable example_dag ?s1"
    by (rule event_loop_steps_reachable) (rule reachable.start)
  have h5: "example_sched ?s1 = (0, Raises ''boom'', 1)" by code_simp
  have h6: "0 < length (tasks ?s1)" by code_simp
  have h7: "tasks ?s1 ! 0 = Awaiting ''node_0'' 0" by code_simp
  have h8: "2 * length (nodes (graph example_dag)) \<le> (6::nat)" by code_simp
  have e1: "successors (graph example_dag) ''node_0'' = [''node_1'', ''node_2'']" by code_simp
  have e2: "map_option (map_sum id results)
      (run 6 example_dag example_sched (executor_init example_dag)) =
     Some (Inr [(''node_0'', ''ERROR: boom''), (''node_1'', ''ok''), (''node_2'', ''ok'')])"
    by code_simp
  note t = strategy_exception_is_contained
    [where sched = example_sched and st = "?s1" and sched' = example_sched,
     OF h1 h2 h3 h4 h5 h6 h7 h8]
  from t have t1: "(\<exists>st'. pick_task (graph example_dag) example_sched ?s1 = Inr st' \<and>
        reachable example_dag st' \<and>
        ''node_0'' \<notin> fst ` set (results ?s1) \<and>
        results st' = results ?s1 @ [(''node_0'', ''ERROR: '' @ ''boom'')] \<and>
        timings st' = timings ?s1 @ [(''node_0'', 1 - 0)] \<and>
        (\<forall>s \<in> set (successors (graph example_dag) ''node_0'').
           map_of (in_degrees st') s = map_option (\<lambda>k. k - 1) (map_of (in_degrees ?s1) s) \<and>
           child_inputs st' s = child_inputs ?s1 s @ [''ERROR: '' @ ''boom'']) \<and>
        tasks st' = take 0 (tasks ?s1) @ drop (Suc 0) (tasks ?s1) @
          map Created (filter (\<lambda>s. map_of (in_degrees st') s = Some 0)
                         (successors (graph example_dag) ''node_0'')))" by (rule conjunct1)
  from t have t2: "\<exists>stf. run 6 example_dag example_sched (executor_init example_dag) = Some (Inr stf) \<and>
      distinct (map fst (outcomes stf)) \<and>
      set (map fst (outcomes stf)) = set (nodes (graph example_dag)) \<and>
      set (map fst (results stf)) = set (nodes (graph example_dag)) \<and>
      set (map fst (timings stf)) = set (nodes (graph example_dag)) \<and>
      (\<forall>no \<in> set (outcomes stf).
         map_of (results stf) (fst no) =
           Some (case snd no of Returns s \<Rightarrow> s | Raises m \<Rightarrow> ''ERROR: '' @ m))"
    by (rule conjunct2)
  show ?thesis
    apply (intro conjI)
    apply (rule h1)
    apply (rule h2)
    apply (rule h3)
    apply (rule h4)
    apply (rule h5)
    apply (rule h6)
    apply (rule h7)
    apply (rule h8)
    apply (rule e1)
    apply (rule e2)
    apply (rule t1)
    apply (rule t2)
    done
qed

text \<open>
  Claim C5. On a generated graph, in every state a run can pass through no node has two
  tasks, no finished node has a task, the strategy has been called at most once for each
  node, and the nodes that have been started (they are finished or have a task) are
  exactly the nodes whose counter is 0. The two parts of \<open>_run_node_task\<close> are the steps of
  the model, each run as a whole: the lock is free whenever a task asks for it, and the
  code under the lock does not give up control. A step never raises, no started node is
  lost by it, and the tasks it creates are exactly those of the nodes whose counter it
  brings to 0; the counter of the source is 0 from the beginning, and its task is the one
  \<open>run\<close> starts with. A run that is given two rounds per node returns with every node
  started exactly once.
\<close>

theorem node_task_started_exactly_once:
  assumes "mset shuffled = mset [0..<nat n]" and "1 \<le> n"
    and "weighted_dag_init n p shuffled iter r = Inr d"
    and "reachable d st"
    and "tasks st \<noteq> []"
    and "2 * length (nodes (graph d)) \<le> fuel"
  shows "distinct (map task_node (tasks st)) \<and>
         task_node ` set (tasks st) \<inter> finished st = {} \<and>
         distinct (map fst (calls st)) \<and>
         finished st \<union> task_node ` set (tasks st) =
           {v \<in> set (nodes (graph d)). map_of (in_degrees st) v = Some 0} \<and>
         (\<exists>st'. pick_task (graph d) sched st = Inr st' \<and> reachable d st' \<and>
            finished st \<union> task_node ` set (tasks st) \<subseteq>
              finished st' \<union> task_node ` set (tasks st') \<and>
            distinct (map task_node (tasks st')) \<and>
            (\<forall>v. (Created v \<in> set (tasks st') \<and> Created v \<notin> set (tasks st)) =
                 (map_of (in_degrees st') v = Some 0 \<and> map_of (in_degrees st) v \<noteq> Some 0))) \<and>
         (\<exists>stf. run fuel d sched' (executor_init d) =
              Some (Inr (stf\<lparr>wall_end_time := Some (clock sched' stf)\<rparr>)) \<and>
            reachable d stf \<and> tasks stf = [] \<and>
            distinct (map fst (calls stf)) \<and>
            set (map fst (calls stf)) = set (nodes (graph d)))"
proof -
  let ?G = "graph d"
  let ?S = "\<lambda>s. finished s \<union> task_node ` set (tasks s)"
  from generated_single_source [OF assms(1-3)]
  have ss: "single_source_dag ?G (source d)" .
  then have ok: "graph_ok ?G" and ac: "acyclic (edge_rel ?G)"
    by (simp_all add: single_source_dag_def)
  from reachable_inv [OF ss assms(4)] have si: "sched_inv ?G st" and li: "log_inv ?G st"
    by blast+
  from si have c1: "distinct (map task_node (tasks st))"
    and c2: "task_node ` set (tasks st) \<inter> finished st = {}"
    by (simp_all add: sched_inv_def)
  from li have c3: "distinct (map fst (calls st))" by (simp add: log_inv_def)
  note c4 = started_iff_counter_zero [OF si]
  from pick_task_cases [OF ok ac si li assms(5), of sched]
  obtain st' pre post node where st': "pick_task ?G sched st = Inr st'"
    "sched_inv ?G st'"
    and cases: "(tasks st = pre @ Created node # post \<and>
        tasks st' = pre @ post @ [Awaiting node (snd (snd (sched st)))] \<and>
        results st' = results st \<and> in_degrees st' = in_degrees st \<and>
        child_inputs st' = child_inputs st) \<or>
       (\<exists>start.
        tasks st = pre @ Awaiting node start # post \<and>
        results st' = results st @ [(node, result_of (fst (snd (sched st))))] \<and>
        timings st' = timings st @ [(node, snd (snd (sched st)) - start)] \<and>
        (\<forall>v. map_of (in_degrees st') v =
              (if v \<in> set (successors ?G node)
               then map_option (\<lambda>k. k - 1) (map_of (in_degrees st) v)
               else map_of (in_degrees st) v)) \<and>
        (\<forall>v. child_inputs st' v =
              (if v \<in> set (successors ?G node)
               then child_inputs st v @ [result_of (fst (snd (sched st)))]
               else child_inputs st v)) \<and>
        tasks st' = pre @ post @
          map Created (filter (\<lambda>s. map_of (in_degrees st) s = Some 1) (successors ?G node)))"
    by blast
  have r': "reachable d st'" by (rule reachable.step [OF assms(4,5) st'(1)])
  from st'(2) have d': "distinct (map task_node (tasks st'))" by (simp add: sched_inv_def)
  have mono: "?S st \<subseteq> ?S st'"
    and new: "\<forall>v. (Created v \<in> set (tasks st') \<and> Created v \<notin> set (tasks st)) =
                 (map_of (in_degrees st') v = Some 0 \<and> map_of (in_degrees st) v \<noteq> Some 0)"
  proof -
    from cases show "?S st \<subseteq> ?S st'"
    proof
      assume "tasks st = pre @ Created node # post \<and>
        tasks st' = pre @ post @ [Awaiting node (snd (snd (sched st)))] \<and>
        results st' = results st \<and> in_degrees st' = in_degrees st \<and>
        child_inputs st' = child_inputs st"
      then show ?thesis by (auto simp: finished_def)
    next
      assume "\<exists>start.
        tasks st = pre @ Awaiting node start # post \<and>
        results st' = results st @ [(node, result_of (fst (snd (sched st))))] \<and>
        timings st' = timings st @ [(node, snd (snd (sched st)) - start)] \<and>
        (\<forall>v. map_of (in_degrees st') v =
              (if v \<in> set (successors ?G node)
               then map_option (\<lambda>k. k - 1) (map_of (in_degrees st) v)
               else map_of (in_degrees st) v)) \<and>
        (\<forall>v. child_inputs st' v =
              (if v \<in> set (successors ?G node)
               then child_inputs st v @ [result_of (fst (snd (sched st)))]
               else child_inputs st v)) \<and>
        tasks st' = pre @ post @
          map Created (filter (\<lambda>s. map_of (in_degrees st) s = Some 1) (successors ?G node))"
      then obtain start where t: "tasks st = pre @ Awaiting node start # post"
        and rs: "results st' = results st @ [(node, result_of (fst (snd (sched st))))]"
        and t': "tasks st' = pre @ post @
          map Created (filter (\<lambda>s. map_of (in_degrees st) s = Some 1) (successors ?G node))"
        by blast
      have "finished st' = insert node (finished st)" by (simp add: finished_def rs)
      moreover have "task_node ` set (tasks st) =
          insert node (task_node ` set pre \<union> task_node ` set post)"
        by (simp add: t image_Un)
      moreover have "task_node ` set pre \<union> task_node ` set post \<subseteq> task_node ` set (tasks st')"
        by (simp add: t' image_Un) blast
      ultimately show ?thesis by blast
    qed
    show "\<forall>v. (Created v \<in> set (tasks st') \<and> Created v \<notin> set (tasks st)) =
                 (map_of (in_degrees st') v = Some 0 \<and> map_of (in_degrees st) v \<noteq> Some 0)"
    proof
      fix v
      from cases
      show "(Created v \<in> set (tasks st') \<and> Created v \<notin> set (tasks st)) =
                 (map_of (in_degrees st') v = Some 0 \<and> map_of (in_degrees st) v \<noteq> Some 0)"
      proof
        assume "tasks st = pre @ Created node # post \<and>
          tasks st' = pre @ post @ [Awaiting node (snd (snd (sched st)))] \<and>
          results st' = results st \<and> in_degrees st' = in_degrees st \<and>
          child_inputs st' = child_inputs st"
        then show ?thesis by auto
      next
        assume "\<exists>start.
          tasks st = pre @ Awaiting node start # post \<and>
          results st' = results st @ [(node, result_of (fst (snd (sched st))))] \<and>
          timings st' = timings st @ [(node, snd (snd (sched st)) - start)] \<and>
          (\<forall>v. map_of (in_degrees st') v =
                (if v \<in> set (successors ?G node)
                 then map_option (\<lambda>k. k - 1) (map_of (in_degrees st) v)
                 else map_of (in_degrees st) v)) \<and>
          (\<forall>v. child_inputs st' v =
                (if v \<in> set (successors ?G node)
                 then child_inputs st v @ [result_of (fst (snd (sched st)))]
                 else child_inputs st v)) \<and>
          tasks st' = pre @ post @
            map Created (filter (\<lambda>s. map_of (in_degrees st) s = Some 1) (successors ?G node))"
        then obtain start where t: "tasks st = pre @ Awaiting node start # post"
          and cn: "map_of (in_degrees st') v =
                (if v \<in> set (successors ?G node)
                 then map_option (\<lambda>k. k - 1) (map_of (in_degrees st) v)
                 else map_of (in_degrees st) v)"
          and t': "tasks st' = pre @ post @
            map Created (filter (\<lambda>s. map_of (in_degrees st) s = Some 1) (successors ?G node))"
          by blast
        have one: "v \<in> set (successors ?G node) \<and> map_of (in_degrees st) v = Some 1 \<longleftrightarrow>
            map_of (in_degrees st') v = Some 0 \<and> map_of (in_degrees st) v \<noteq> Some 0"
          unfolding cn by (cases "map_of (in_degrees st) v") auto
        have old: "Created v \<notin> set (tasks st)" if "map_of (in_degrees st) v = Some 1"
        proof
          assume "Created v \<in> set (tasks st)"
          then have "task_node (Created v) \<in> task_node ` set (tasks st)" by (rule imageI)
          then have "v \<in> ?S st" by simp
          with c4 have "map_of (in_degrees st) v = Some 0" by blast
          with that show False by simp
        qed
        have mem: "Created v \<in> set (tasks st') \<longleftrightarrow>
            Created v \<in> set pre \<union> set post \<or>
            (v \<in> set (successors ?G node) \<and> map_of (in_degrees st) v = Some 1)"
          by (auto simp: t')
        have sub: "set pre \<union> set post \<subseteq> set (tasks st)" by (auto simp: t)
        from mem sub old have "(Created v \<in> set (tasks st') \<and> Created v \<notin> set (tasks st)) \<longleftrightarrow>
            (v \<in> set (successors ?G node) \<and> map_of (in_degrees st) v = Some 1)"
          by blast
        with one show ?thesis by simp
      qed
    qed
  qed
  have step: "\<exists>st'. pick_task ?G sched st = Inr st' \<and> reachable d st' \<and>
            ?S st \<subseteq> ?S st' \<and> distinct (map task_node (tasks st')) \<and>
            (\<forall>v. (Created v \<in> set (tasks st') \<and> Created v \<notin> set (tasks st)) =
                 (map_of (in_degrees st') v = Some 0 \<and> map_of (in_degrees st) v \<noteq> Some 0))"
    apply (rule exI [of _ st'])
    apply (intro conjI)
    apply (rule st'(1))
    apply (rule r')
    apply (rule mono)
    apply (rule d')
    apply (rule new)
    done
  from run_ok [OF ss assms(6), of sched']
  obtain st3 where st3:
    "run fuel d sched' (executor_init d) =
       Some (Inr (st3\<lparr>wall_end_time := Some (clock sched' st3)\<rparr>))"
    "reachable d st3"
    "sched_inv ?G st3" "log_inv ?G st3" "finished st3 = set (nodes ?G)" "tasks st3 = []"
    by blast
  note f = final_state_counts [OF ok st3(3-6)]
  have whole: "\<exists>stf. run fuel d sched' (executor_init d) =
              Some (Inr (stf\<lparr>wall_end_time := Some (clock sched' stf)\<rparr>)) \<and>
            reachable d stf \<and> tasks stf = [] \<and>
            distinct (map fst (calls stf)) \<and>
            set (map fst (calls stf)) = set (nodes ?G)"
    apply (rule exI [of _ st3])
    apply (intro conjI)
    apply (rule st3(1))
    apply (rule st3(2))
    apply (rule st3(6))
    apply (rule f(7))
    apply (rule f(8))
    done
  show ?thesis
    apply (intro conjI)
    apply (rule c1)
    apply (rule c2)
    apply (rule c3)
    apply (rule c4)
    apply (rule step)
    apply (rule whole)
    done
qed

theorem node_task_started_exactly_once_witness:
  "mset [0, 1, 2] = mset [0..<nat 3] \<and> (1::int) \<le> 3 \<and>
   weighted_dag_init 3 (1 / 2) [0, 1, 2] sort all_edges_rng = Inr example_dag \<and>
   reachable example_dag (event_loop_steps 3 (graph example_dag) example_sched
        (start_state example_dag example_sched (executor_init example_dag))) \<and>
   tasks (event_loop_steps 3 (graph example_dag) example_sched
        (start_state example_dag example_sched (executor_init example_dag))) \<noteq> [] \<and>
   2 * length (nodes (graph example_dag)) \<le> (6::nat) \<and>
   tasks (event_loop_steps 1 (graph example_dag) example_sched
        (start_state example_dag example_sched (executor_init example_dag))) = [Awaiting ''node_0'' 0] \<and>
   in_degrees (event_loop_steps 1 (graph example_dag) example_sched
        (start_state example_dag example_sched (executor_init example_dag))) = [(''node_0'', 0), (''node_1'', 1), (''node_2'', 2)] \<and>
   tasks (event_loop_steps 2 (graph example_dag) example_sched
        (start_state example_dag example_sched (executor_init example_dag))) = [Created ''node_1''] \<and>
   in_degrees (event_loop_steps 2 (graph example_dag) example_sched
        (start_state example_dag example_sched (executor_init example_dag))) = [(''node_0'', 0), (''node_1'', 0), (''node_2'', 1)] \<and>
   tasks (event_loop_steps 3 (graph example_dag) example_sched
        (start_state example_dag example_sched (executor_init example_dag))) = [Awaiting ''node_1'' 2] \<and>
   tasks (event_loop_steps 4 (graph example_dag) example_sched
        (start_state example_dag example_sched (executor_init example_dag))) = [Created ''node_2''] \<and>
   in_degrees (event_loop_steps 4 (graph example_dag) example_sched
        (start_state example_dag example_sched (executor_init example_dag))) = [(''node_0'', 0), (''node_1'', 0), (''node_2'', 0)] \<and>
   distinct (map task_node (tasks (event_loop_steps 3 (graph example_dag) example_sched
        (start_state example_dag example_sched (executor_init example_dag))))) \<and>
   task_node ` set (tasks (event_loop_steps 3 (graph example_dag) example_sched
        (start_state example_dag example_sched (executor_init example_dag)))) \<inter> finished (event_loop_steps 3 (graph example_dag) example_sched
        (start_state example_dag example_sched (executor_init example_dag))) = {} \<and>
   distinct (map fst (calls (event_loop_steps 3 (graph example_dag) example_sched
        (start_state example_dag example_sched (executor_init example_dag))))) \<and>
   finished (event_loop_steps 3 (graph example_dag) example_sched
        (start_state example_dag example_sched (executor_init example_dag))) \<union> task_node ` set (tasks (event_loop_steps 3 (graph example_dag) example_sched
        (start_state example_dag example_sched (executor_init example_dag)))) =
     {v \<in> set (nodes (graph example_dag)). map_of (in_degrees (event_loop_steps 3 (graph example_dag) example_sched
        (start_state example_dag example_sched (executor_init example_dag)))) v = Some 0} \<and>
   (\<exists>st'. pick_task (graph example_dag) example_sched (event_loop_steps 3 (graph example_dag) example_sched
        (start_state example_dag example_sched (executor_init example_dag))) = Inr st' \<and>
      reachable example_dag st' \<and>
      finished (event_loop_steps 3 (graph example_dag) example_sched
        (start_state example_dag example_sched (executor_init example_dag))) \<union> task_node ` set (tasks (event_loop_steps 3 (graph example_dag) example_sched
        (start_state example_dag example_sched (executor_init example_dag)))) \<subseteq>
        finished st' \<union> task_node ` set (tasks st') \<and>
      distinct (map task_node (tasks st')) \<and>
      (\<forall>v. (Created v \<in> set (tasks st') \<and> Created v \<notin> set (tasks (event_loop_steps 3 (graph example_dag) example_sched
        (start_state example_dag example_sched (executor_init example_dag))))) =
           (map_of (in_degrees st') v = Some 0 \<and> map_of (in_degrees (event_loop_steps 3 (graph example_dag) example_sched
        (start_state example_dag example_sched (executor_init example_dag)))) v \<noteq> Some 0))) \<and>
   (\<exists>stf. run 6 example_dag example_sched (executor_init example_dag) =
        Some (Inr (stf\<lparr>wall_end_time := Some (clock example_sched stf)\<rparr>)) \<and>
      reachable example_dag stf \<and> tasks stf = [] \<and>
      distinct (map fst (calls stf)) \<and>
      set (map fst (calls stf)) = set (nodes (graph example_dag)))"
proof -
  let ?s3 = "event_loop_steps 3 (graph example_dag) example_sched
        (start_state example_dag example_sched (executor_init example_dag))"
  have h1: "mset [0, 1, 2] = mset [0..<nat 3]" by (simp add: upt_rec numeral_eq_Suc)
  have h2: "(1::int) \<le> 3" by simp
  have h3: "weighted_dag_init 3 (1 / 2) [0, 1, 2] sort all_edges_rng = Inr example_dag"
    by code_simp
  have h4: "reachable example_dag ?s3"
    by (rule event_loop_steps_reachable) (rule reachable.start)
  have h5: "tasks ?s3 \<noteq> []" by code_simp
  have h6: "2 * length (nodes (graph example_dag)) \<le> (6::nat)" by code_simp
  have e1: "tasks (event_loop_steps 1 (graph example_dag) example_sched
        (start_state example_dag example_sched (executor_init example_dag))) = [Awaiting ''node_0'' 0]" by code_simp
  have e2: "in_degrees (event_loop_steps 1 (graph example_dag) example_sched
        (start_state example_dag example_sched (executor_init example_dag))) = [(''node_0'', 0), (''node_1'', 1), (''node_2'', 2)]" by code_simp
  have e3: "tasks (event_loop_steps 2 (graph example_dag) example_sched
        (start_state example_dag example_sched (executor_init example_dag))) = [Created ''node_1'']" by code_simp
  have e4: "in_degrees (event_loop_steps 2 (graph example_dag) example_sched
        (start_state example_dag example_sched (executor_init example_dag))) = [(''node_0'', 0), (''node_1'', 0), (''node_2'', 1)]" by code_simp
  have e5: "tasks ?s3 = [Awaiting ''node_1'' 2]" by code_simp
  have e6: "tasks (event_loop_steps 4 (graph example_dag) example_sched
        (start_state example_dag example_sched (executor_init example_dag))) = [Created ''node_2'']" by code_simp
  have e7: "in_degrees (event_loop_steps 4 (graph example_dag) example_sched
        (start_state example_dag example_sched (executor_init example_dag))) = [(''node_0'', 0), (''node_1'', 0), (''node_2'', 0)]" by code_simp
  note t = node_task_started_exactly_once
    [where sched = example_sched and st = "?s3" and sched' = example_sched,
     OF h1 h2 h3 h4 h5 h6]
  show ?thesis
    apply (rule conjI, rule h1)
    apply (rule conjI, rule h2)
    apply (rule conjI, rule h3)
    apply (rule conjI, rule h4)
    apply (rule conjI, rule h5)
    apply (rule conjI, rule h6)
    apply (rule conjI, rule e1)
    apply (rule conjI, rule e2)
    apply (rule conjI, rule e3)
    apply (rule conjI, rule e4)
    apply (rule conjI, rule e5)
    apply (rule conjI, rule e6)
    apply (rule conjI, rule e7)
    apply (rule t)
    done
qed

text \<open>
  Claim C6. On a generated graph every call of the strategy, for the source and for every
  other node, is made with the empty input list and with the sum of the durations of all
  edges of the graph that enter the node. This holds in every state a run can pass
  through, and the first part of \<open>_run_node_task\<close> makes that call from any state at all:
  the budget is read from the graph and does not depend on which predecessors are
  finished, and what \<open>child_inputs\<close> holds for the node is not passed on. A run that is
  given two rounds per node returns with exactly one such call for each node.
\<close>

theorem strategy_called_with_empty_inputs_and_static_budget:
  assumes "mset shuffled = mset [0..<nat n]" and "1 \<le> n"
    and "weighted_dag_init n p shuffled iter r = Inr d"
    and "reachable d st"
    and "v \<in> set (nodes (graph d))"
    and "2 * length (nodes (graph d)) \<le> fuel"
  shows "(\<forall>c \<in> set (calls st).
            fst (snd c) = [] \<and>
            snd (snd c) =
              sum_list (map snd (filter (\<lambda>e. snd (fst e) = fst c) (edges (graph d))))) \<and>
         (\<exists>s'. begin_task (graph d) v now s = Inr s' \<and>
            calls s' = calls s @
              [(v, [], sum_list (map snd (filter (\<lambda>e. snd (fst e) = v) (edges (graph d)))))]) \<and>
         (\<exists>stf. run fuel d sched (executor_init d) = Some (Inr stf) \<and>
            distinct (map fst (calls stf)) \<and>
            set (map fst (calls stf)) = set (nodes (graph d)) \<and>
            (\<forall>c \<in> set (calls stf).
               fst (snd c) = [] \<and>
               snd (snd c) =
                 sum_list (map snd (filter (\<lambda>e. snd (fst e) = fst c) (edges (graph d))))))"
proof -
  let ?G = "graph d"
  let ?B = "\<lambda>v. sum_list (map snd (filter (\<lambda>e. snd (fst e) = v) (edges ?G)))"
  from generated_single_source [OF assms(1-3)]
  have ss: "single_source_dag ?G (source d)" .
  then have ok: "graph_ok ?G" by (simp add: single_source_dag_def)
  have shape: "\<forall>c \<in> set (calls t). fst (snd c) = [] \<and> snd (snd c) = ?B (fst c)"
    if li: "log_inv ?G t" for t
  proof
    fix c assume c: "c \<in> set (calls t)"
    from li have "\<forall>c \<in> set (calls t). c = (fst c, [], sum_list (map snd (in_edges ?G (fst c))))"
      by (simp add: log_inv_def)
    with c have e: "c = (fst c, [], sum_list (map snd (in_edges ?G (fst c))))" by blast
    have "fst (snd c) = []" by (subst e) simp
    moreover have "snd (snd c) = sum_list (map snd (in_edges ?G (fst c)))" by (subst e) simp
    ultimately show "fst (snd c) = [] \<and> snd (snd c) = ?B (fst c)"
      by (simp only: in_edges_sum)
  qed
  from reachable_inv [OF ss assms(4)] have li: "log_inv ?G st" by blast
  note p1 = shape [OF li]
  have p2: "\<exists>s'. begin_task ?G v now s = Inr s' \<and> calls s' = calls s @ [(v, [], ?B v)]"
    using assms(5) by (simp add: begin_task_def Let_def in_edges_sum)
  from run_ok [OF ss assms(6), of sched]
  obtain st3 where st3:
    "run fuel d sched (executor_init d) =
       Some (Inr (st3\<lparr>wall_end_time := Some (clock sched st3)\<rparr>))"
    "sched_inv ?G st3" "log_inv ?G st3" "finished st3 = set (nodes ?G)" "tasks st3 = []"
    by blast
  note f = final_state_wall [OF ok st3(2-5), of "Some (clock sched st3)"]
  from st3(3) have "log_inv ?G (st3\<lparr>wall_end_time := Some (clock sched st3)\<rparr>)" by simp
  note p3 = shape [OF this]
  have "\<exists>stf. run fuel d sched (executor_init d) = Some (Inr stf) \<and>
            distinct (map fst (calls stf)) \<and> set (map fst (calls stf)) = set (nodes ?G) \<and>
            (\<forall>c \<in> set (calls stf). fst (snd c) = [] \<and> snd (snd c) = ?B (fst c))"
    apply (rule exI [of _ "st3\<lparr>wall_end_time := Some (clock sched st3)\<rparr>"])
    apply (intro conjI)
    apply (rule st3(1))
    apply (rule f(9))
    apply (rule f(10))
    apply (rule p3)
    done
  with p1 p2 show ?thesis by (intro conjI)
qed

theorem strategy_called_with_empty_inputs_and_static_budget_witness:
  "mset [0, 1, 2] = mset [0..<nat 3] \<and> (1::int) \<le> 3 \<and>
   weighted_dag_init 3 (1 / 2) [0, 1, 2] sort all_edges_rng = Inr example_dag \<and>
   reachable example_dag
     (event_loop_steps 5 (graph example_dag) example_sched
        (start_state example_dag example_sched (executor_init example_dag))) \<and>
   ''node_2'' \<in> set (nodes (graph example_dag)) \<and>
   2 * length (nodes (graph example_dag)) \<le> (6::nat) \<and>
   calls (event_loop_steps 5 (graph example_dag) example_sched
        (start_state example_dag example_sched (executor_init example_dag))) =
     [(''node_0'', [], 0), (''node_1'', [], 1), (''node_2'', [], 5)] \<and>
   child_inputs (event_loop_steps 4 (graph example_dag) example_sched
        (start_state example_dag example_sched (executor_init example_dag))) ''node_2'' =
     [''ERROR: boom'', ''ok''] \<and>
   list_all
     (\<lambda>c. fst (snd c) = [] \<and>
          snd (snd c) =
            sum_list (map snd (filter (\<lambda>e. snd (fst e) = fst c) (edges (graph example_dag)))))
     (calls (event_loop_steps 5 (graph example_dag) example_sched
        (start_state example_dag example_sched (executor_init example_dag)))) \<and>
   (\<exists>s'. begin_task (graph example_dag) ''node_2'' 4
        (event_loop_steps 4 (graph example_dag) example_sched
          (start_state example_dag example_sched (executor_init example_dag))) = Inr s' \<and>
      calls s' =
        calls (event_loop_steps 4 (graph example_dag) example_sched
          (start_state example_dag example_sched (executor_init example_dag))) @
        [(''node_2'', [],
          sum_list (map snd (filter (\<lambda>e. snd (fst e) = ''node_2'') (edges (graph example_dag)))))]) \<and>
   (\<exists>stf. run 6 example_dag example_sched (executor_init example_dag) = Some (Inr stf) \<and>
      distinct (map fst (calls stf)) \<and>
      set (map fst (calls stf)) = set (nodes (graph example_dag)) \<and>
      (\<forall>c \<in> set (calls stf).
         fst (snd c) = [] \<and>
         snd (snd c) =
           sum_list (map snd (filter (\<lambda>e. snd (fst e) = fst c) (edges (graph example_dag))))))"
proof -
  let ?s0 = "start_state example_dag example_sched (executor_init example_dag)"
  let ?s4 = "event_loop_steps 4 (graph example_dag) example_sched ?s0"
  let ?s5 = "event_loop_steps 5 (graph example_dag) example_sched ?s0"
  have h1: "mset [0, 1, 2] = mset [0..<nat 3]" by (simp add: upt_rec numeral_eq_Suc)
  have h2: "(1::int) \<le> 3" by simp
  have h3: "weighted_dag_init 3 (1 / 2) [0, 1, 2] sort all_edges_rng = Inr example_dag"
    by code_simp
  have h4: "reachable example_dag ?s5"
    by (rule event_loop_steps_reachable) (rule reachable.start)
  have h5: "''node_2'' \<in> set (nodes (graph example_dag))" by code_simp
  have h6: "2 * length (nodes (graph example_dag)) \<le> (6::nat)" by code_simp
  have e1: "calls ?s5 = [(''node_0'', [], 0), (''node_1'', [], 1), (''node_2'', [], 5)]"
    by code_simp
  have e2: "child_inputs ?s4 ''node_2'' = [''ERROR: boom'', ''ok'']" by code_simp
  note t = strategy_called_with_empty_inputs_and_static_budget
    [OF h1 h2 h3 h4 h5 h6, of 4 ?s4 example_sched]
  from t have t1: "list_all
     (\<lambda>c. fst (snd c) = [] \<and>
          snd (snd c) =
            sum_list (map snd (filter (\<lambda>e. snd (fst e) = fst c) (edges (graph example_dag)))))
     (calls ?s5)"
    unfolding list_all_iff by (rule conjunct1)
  from t have t2: "\<exists>s'. begin_task (graph example_dag) ''node_2'' 4 ?s4 = Inr s' \<and>
      calls s' = calls ?s4 @
        [(''node_2'', [],
          sum_list (map snd (filter (\<lambda>e. snd (fst e) = ''node_2'') (edges (graph example_dag)))))]"
    by blast
  from t have t3: "\<exists>stf. run 6 example_dag example_sched (executor_init example_dag) = Some (Inr stf) \<and>
      distinct (map fst (calls stf)) \<and>
      set (map fst (calls stf)) = set (nodes (graph example_dag)) \<and>
      (\<forall>c \<in> set (calls stf).
         fst (snd c) = [] \<and>
         snd (snd c) =
           sum_list (map snd (filter (\<lambda>e. snd (fst e) = fst c) (edges (graph example_dag)))))"
    by blast
  show ?thesis
    apply (rule conjI, rule h1)
    apply (rule conjI, rule h2)
    apply (rule conjI, rule h3)
    apply (rule conjI, rule h4)
    apply (rule conjI, rule h5)
    apply (rule conjI, rule h6)
    apply (rule conjI, rule e1)
    apply (rule conjI, rule e2)
    apply (rule conjI, rule t1)
    apply (rule conjI, rule t2)
    apply (rule t3)
    done
qed

end
